theory Spec2Isabelle
  imports Main
begin

section \<open>Data model of script.js\<close>

text \<open>
  The globals of script.js become one record, threaded through every function.
  A rotation state is a matrix of the numbers 0 and 1; a board cell is \<open>null\<close>
  (\<open>None\<close>) or a colour string. JavaScript numbers that the game only ever
  holds as small integers (coordinates, counters, milliseconds) are \<open>int\<close>;
  indices into arrays are \<open>nat\<close>. The score is the one number that can leave
  the integers (\<open>score += undefined\<close> gives \<open>NaN\<close>), so it has a type of its
  own; its integer values are taken as exact, as the script's doubles are below
  2^53. Canvas drawing and the DOM overlay write nothing the game logic reads
  and are left out.
\<close>

type_synonym shape = "nat list list"
type_synonym cell = "string option"
type_synonym board = "cell list list"

datatype error = TypeError

datatype number = Num int | NaN

record piecedef =
  name :: string
  colour :: string
  rotations :: "shape list"

record piece = piecedef +
  rotationIndex :: nat
  x :: int
  y :: int

text \<open>
  \<open>dropTimer\<close> is the variable holding the id that \<open>setInterval\<close> returned
  (\<open>None\<close> for \<open>null\<close>); \<open>timers\<close> is the host's table of running interval
  timers (id and period) and \<open>nextTimerId\<close> the id the host hands out next.
\<close>

record game =
  board :: board
  currentPiece :: piece
  dropTimer :: "nat option"
  dropInterval :: int
  score :: number
  linesCleared :: int
  isGameOver :: bool
  timers :: "(nat \<times> int) list"
  nextTimerId :: nat

definition COLS :: nat where
  "COLS = 10"

definition ROWS :: nat where
  "ROWS = 20"

definition PIECES :: "piecedef list" where
  "PIECES =
   [\<lparr>name = ''I'', colour = ''#00b4d8'', rotations =
       [[[0, 0, 0, 0],
         [1, 1, 1, 1],
         [0, 0, 0, 0],
         [0, 0, 0, 0]],
        [[0, 0, 1, 0],
         [0, 0, 1, 0],
         [0, 0, 1, 0],
         [0, 0, 1, 0]]]\<rparr>,
    \<lparr>name = ''J'', colour = ''#457b9d'', rotations =
       [[[1, 0, 0],
         [1, 1, 1],
         [0, 0, 0]],
        [[0, 1, 1],
         [0, 1, 0],
         [0, 1, 0]],
        [[0, 0, 0],
         [1, 1, 1],
         [0, 0, 1]],
        [[0, 1, 0],
         [0, 1, 0],
         [1, 1, 0]]]\<rparr>,
    \<lparr>name = ''L'', colour = ''#f4a261'', rotations =
       [[[0, 0, 1],
         [1, 1, 1],
         [0, 0, 0]],
        [[0, 1, 0],
         [0, 1, 0],
         [0, 1, 1]],
        [[0, 0, 0],
         [1, 1, 1],
         [1, 0, 0]],
        [[1, 1, 0],
         [0, 1, 0],
         [0, 1, 0]]]\<rparr>,
    \<lparr>name = ''O'', colour = ''#e9c46a'', rotations =
       [[[1, 1],
         [1, 1]]]\<rparr>,
    \<lparr>name = ''S'', colour = ''#2a9d8f'', rotations =
       [[[0, 1, 1],
         [1, 1, 0],
         [0, 0, 0]],
        [[0, 1, 0],
         [0, 1, 1],
         [0, 0, 1]]]\<rparr>,
    \<lparr>name = ''T'', colour = ''#a29bfe'', rotations =
       [[[0, 1, 0],
         [1, 1, 1],
         [0, 0, 0]],
        [[0, 1, 0],
         [0, 1, 1],
         [0, 1, 0]],
        [[0, 0, 0],
         [1, 1, 1],
         [0, 1, 0]],
        [[0, 1, 0],
         [1, 1, 0],
         [0, 1, 0]]]\<rparr>,
    \<lparr>name = ''Z'', colour = ''#e63946'', rotations =
       [[[1, 1, 0],
         [0, 1, 1],
         [0, 0, 0]],
        [[0, 0, 1],
         [0, 1, 1],
         [0, 1, 0]]]\<rparr>]"

subsection \<open>JavaScript values\<close>

text \<open>
  Truthiness of a board cell: \<open>null\<close>, \<open>undefined\<close> and the empty string are
  falsy, every other string is truthy. Reading an array past its end gives
  \<open>undefined\<close>, which is falsy like \<open>null\<close>.
\<close>

definition truthy :: "cell \<Rightarrow> bool" where
  "truthy v = (case v of None \<Rightarrow> False | Some s \<Rightarrow> s \<noteq> [])"

definition cell_at :: "cell list \<Rightarrow> nat \<Rightarrow> cell" where
  "cell_at row i = (if i < length row then row ! i else None)"

definition add_number :: "number \<Rightarrow> number \<Rightarrow> number" where
  "add_number a b = (case (a, b) of (Num m, Num n) \<Rightarrow> Num (m + n) | _ \<Rightarrow> NaN)"

section \<open>Spawning\<close>

text \<open>
  \<open>randomPiece\<close> takes the value of \<open>Math.floor(Math.random() * PIECES.length)\<close>
  as its argument. \<open>Math.random()\<close> lies in [0, 1), so the index is below 7; an
  index past the table would read \<open>def.name\<close> of \<open>undefined\<close>.
\<close>

definition randomPiece :: "nat \<Rightarrow> error + piece" where
  "randomPiece index =
     (if length PIECES \<le> index then Inl TypeError
      else let def = PIECES ! index in
        (case rotations def of
           (row0 # _) # _ \<Rightarrow>
             Inr \<lparr>name = name def, colour = colour def, rotations = rotations def,
                  rotationIndex = 0,
                  x = (int COLS - int (length row0)) div 2,
                  y = - 1\<rparr>
         | _ \<Rightarrow> Inl TypeError))"

section \<open>Collision predicate\<close>

text \<open>
  The cells \<open>(r, c)\<close> of a rotation state that the two nested loops of
  \<open>collides\<close> do not skip with \<open>continue\<close>, in the order the loops visit them.
\<close>

definition occupied :: "shape \<Rightarrow> (nat \<times> nat) list" where
  "occupied shape =
     [(r, c). r \<leftarrow> [0..<length shape], c \<leftarrow> [0..<length (shape ! r)], shape ! r ! c \<noteq> 0]"

text \<open>
  The body of the inner loop for one occupied cell at board position \<open>(cx, cy)\<close>:
  \<open>Inr True\<close> is \<open>return true\<close>, \<open>Inr False\<close> falls through to the next cell.
  \<open>board[y]\<close> of a row the board does not have is \<open>undefined\<close>, and indexing it
  throws.
\<close>

definition cell_check :: "board \<Rightarrow> int \<Rightarrow> int \<Rightarrow> error + bool" where
  "cell_check b cx cy =
     (if cx < 0 \<or> cx \<ge> int COLS \<or> cy \<ge> int ROWS then Inr True
      else if cy \<ge> 0 then
        (if length b \<le> nat cy then Inl TypeError
         else Inr (truthy (cell_at (b ! nat cy) (nat cx))))
      else Inr False)"

fun collides_scan :: "board \<Rightarrow> int \<Rightarrow> int \<Rightarrow> (nat \<times> nat) list \<Rightarrow> error + bool" where
  "collides_scan b px py [] = Inr False"
| "collides_scan b px py ((r, c) # cells) =
     (case cell_check b (px + int c) (py + int r) of
        Inr False \<Rightarrow> collides_scan b px py cells
      | res \<Rightarrow> res)"

definition collides :: "game \<Rightarrow> int \<Rightarrow> int \<Rightarrow> nat \<Rightarrow> error + bool" where
  "collides g offsetX offsetY rot =
     (let p = currentPiece g in
      if length (rotations p) \<le> rot then Inl TypeError
      else collides_scan (board g) (x p + offsetX) (y p + offsetY)
             (occupied (rotations p ! rot)))"

section \<open>The host's interval timers\<close>

text \<open>
  \<open>clearInterval(id)\<close> stops the timer with that id and ignores \<open>null\<close> and ids
  that are not running; \<open>dropTimer = setInterval(drop, dropInterval)\<close> starts a
  timer under a fresh id and stores the id.
\<close>

definition clearInterval :: "nat option \<Rightarrow> game \<Rightarrow> game" where
  "clearInterval t g = g\<lparr>timers := filter (\<lambda>(i, period). Some i \<noteq> t) (timers g)\<rparr>"

definition setInterval :: "game \<Rightarrow> game" where
  "setInterval g =
     g\<lparr>dropTimer := Some (nextTimerId g),
       timers := timers g @ [(nextTimerId g, dropInterval g)],
       nextTimerId := Suc (nextTimerId g)\<rparr>"

section \<open>Line clearing\<close>

text \<open>
  A row is full when the inner loop finds no falsy cell in columns 0 to COLS - 1.
\<close>

definition row_full :: "cell list \<Rightarrow> bool" where
  "row_full row = list_all (\<lambda>col. truthy (cell_at row col)) [0..<COLS]"

definition empty_row :: "cell list" where
  "empty_row = replicate COLS None"

lemma empty_row_not_full: "\<not> row_full empty_row"
  by (simp add: row_full_def empty_row_def COLS_def cell_at_def truthy_def
      list_all_iff Bex_def) (rule exI [of _ 0], simp)

lemma full_rows_after_splice:
  assumes "k < length b" and "row_full (b ! k)"
  shows "length (filter row_full (empty_row # (take k b @ drop (Suc k) b)))
           < length (filter row_full b)"
proof -
  have "b = take k b @ b ! k # drop (Suc k) b"
    using assms(1) by (rule id_take_nth_drop)
  then have "length (filter row_full b)
      = length (filter row_full (take k b @ b ! k # drop (Suc k) b))"
    by simp
  then show ?thesis
    using assms(2) by (simp add: empty_row_not_full)
qed

text \<open>
  The labelled loop of \<open>clearLines\<close>, from \<open>row\<close> down to 0, with the count
  \<open>linesThisTurn\<close>. After \<open>splice\<close> and \<open>unshift\<close> the statement \<open>row++\<close>
  cancels the loop's \<open>row--\<close>, so the same index is tested again.
\<close>

function clearLines_loop :: "board \<Rightarrow> int \<Rightarrow> nat \<Rightarrow> error + (board \<times> nat)" where
  "clearLines_loop b row linesThisTurn =
     (if row < 0 then Inr (b, linesThisTurn)
      else if length b \<le> nat row then Inl TypeError
      else if row_full (b ! nat row)
        then clearLines_loop (empty_row # (take (nat row) b @ drop (Suc (nat row)) b))
               row (Suc linesThisTurn)
        else clearLines_loop b (row - 1) linesThisTurn)"
  by pat_completeness auto
termination
proof (relation "measures [\<lambda>(b, row, n). length (filter row_full b),
                           \<lambda>(b, row, n). nat (row + 1)]", goal_cases)
  case 1
  show ?case by simp
next
  case (2 b row n)
  then show ?case
    using full_rows_after_splice [of "nat row" b] by simp
next
  case (3 b row n)
  then show ?case by simp
qed

definition lineScores :: "int list" where
  "lineScores = [0, 40, 100, 300, 1200]"

definition clearLines :: "game \<Rightarrow> error + game" where
  "clearLines g =
     (case clearLines_loop (board g) (int ROWS - 1) 0 of
        Inl e \<Rightarrow> Inl e
      | Inr (b, linesThisTurn) \<Rightarrow>
          if linesThisTurn > 0 then
            let g1 = g\<lparr>board := b,
                       score := add_number (score g)
                         (if linesThisTurn < length lineScores
                          then Num (lineScores ! linesThisTurn) else NaN),
                       linesCleared := linesCleared g + int linesThisTurn\<rparr>
            in if linesCleared g1 mod 10 = 0 \<and> dropInterval g1 > 200
               then Inr (setInterval (clearInterval (dropTimer g1)
                           (g1\<lparr>dropInterval := dropInterval g1 - 100\<rparr>)))
               else Inr g1
          else Inr (g\<lparr>board := b\<rparr>))"

section \<open>Locking\<close>

text \<open>
  \<open>board[y][x] = colour\<close>. A negative \<open>x\<close> sets a property that no code reads
  (every read of a row uses a column index from 0 to COLS - 1), an \<open>x\<close> past the
  end extends the row with holes.
\<close>

definition set_cell :: "cell list \<Rightarrow> int \<Rightarrow> cell \<Rightarrow> cell list" where
  "set_cell row cx v =
     (if cx < 0 then row
      else if nat cx < length row then row[nat cx := v]
      else row @ replicate (nat cx - length row) None @ [v])"

fun write_cells :: "board \<Rightarrow> int \<Rightarrow> int \<Rightarrow> string \<Rightarrow> (nat \<times> nat) list \<Rightarrow> error + board" where
  "write_cells b px py col [] = Inr b"
| "write_cells b px py col ((r, c) # cells) =
     (if py + int r \<ge> 0 then
        (if length b \<le> nat (py + int r) then Inl TypeError
         else write_cells
                (b[nat (py + int r) := set_cell (b ! nat (py + int r)) (px + int c) (Some col)])
                px py col cells)
      else write_cells b px py col cells)"

definition endGame :: "game \<Rightarrow> game" where
  "endGame g = clearInterval (dropTimer g) (g\<lparr>isGameOver := True\<rparr>)"

definition placePiece :: "game \<Rightarrow> nat \<Rightarrow> error + game" where
  "placePiece g index =
     (let p = currentPiece g in
      if length (rotations p) \<le> rotationIndex p then Inl TypeError
      else
        case write_cells (board g) (x p) (y p) (colour p)
               (occupied (rotations p ! rotationIndex p)) of
          Inl e \<Rightarrow> Inl e
        | Inr b \<Rightarrow>
            (case clearLines (g\<lparr>board := b\<rparr>) of
               Inl e \<Rightarrow> Inl e
             | Inr g1 \<Rightarrow>
                 (case randomPiece index of
                    Inl e \<Rightarrow> Inl e
                  | Inr q \<Rightarrow>
                      (case collides (g1\<lparr>currentPiece := q\<rparr>) 0 0 (rotationIndex q) of
                         Inl e \<Rightarrow> Inl e
                       | Inr True \<Rightarrow> Inr (endGame (g1\<lparr>currentPiece := q\<rparr>))
                       | Inr False \<Rightarrow> Inr (g1\<lparr>currentPiece := q\<rparr>)))))"

section \<open>Gravity, movement, rotation\<close>

text \<open>
  The functions \<open>drop\<close> and \<open>rotate\<close> of the script are \<open>drop_piece\<close> and
  \<open>rotate_piece\<close> here, since lists already have a \<open>drop\<close> and a \<open>rotate\<close>.
\<close>

definition drop_piece :: "game \<Rightarrow> nat \<Rightarrow> error + game" where
  "drop_piece g index =
     (if isGameOver g then Inr g
      else
        case collides g 0 1 (rotationIndex (currentPiece g)) of
          Inl e \<Rightarrow> Inl e
        | Inr False \<Rightarrow> Inr (g\<lparr>currentPiece := (currentPiece g)\<lparr>y := y (currentPiece g) + 1\<rparr>\<rparr>)
        | Inr True \<Rightarrow> placePiece g index)"

definition move :: "game \<Rightarrow> int \<Rightarrow> error + game" where
  "move g dir =
     (case collides g dir 0 (rotationIndex (currentPiece g)) of
        Inl e \<Rightarrow> Inl e
      | Inr False \<Rightarrow> Inr (g\<lparr>currentPiece := (currentPiece g)\<lparr>x := x (currentPiece g) + dir\<rparr>\<rparr>)
      | Inr True \<Rightarrow> Inr g)"

text \<open>
  The \<open>for ... of kicks\<close> loop of \<open>rotate\<close>. With an empty \<open>rotations\<close> array
  \<open>nextRotation\<close> is \<open>NaN\<close> and the first \<open>collides\<close> call throws on
  \<open>shape.length\<close>.
\<close>

fun rotate_kicks :: "game \<Rightarrow> nat \<Rightarrow> int list \<Rightarrow> error + game" where
  "rotate_kicks g nextRotation [] = Inr g"
| "rotate_kicks g nextRotation (offset # kicks) =
     (case collides g offset 0 nextRotation of
        Inl e \<Rightarrow> Inl e
      | Inr False \<Rightarrow>
          Inr (g\<lparr>currentPiece := (currentPiece g)
                 \<lparr>rotationIndex := nextRotation, x := x (currentPiece g) + offset\<rparr>\<rparr>)
      | Inr True \<Rightarrow> rotate_kicks g nextRotation kicks)"

definition rotate_piece :: "game \<Rightarrow> error + game" where
  "rotate_piece g =
     (let p = currentPiece g in
      if rotations p = [] then Inl TypeError
      else rotate_kicks g ((rotationIndex p + 1) mod length (rotations p)) [0, - 1, 1, - 2, 2])"

definition softDrop :: "game \<Rightarrow> nat \<Rightarrow> error + game" where
  "softDrop g index =
     (case collides g 0 1 (rotationIndex (currentPiece g)) of
        Inl e \<Rightarrow> Inl e
      | Inr False \<Rightarrow> Inr (g\<lparr>currentPiece := (currentPiece g)\<lparr>y := y (currentPiece g) + 1\<rparr>\<rparr>)
      | Inr True \<Rightarrow> placePiece g index)"

text \<open>
  The \<open>while\<close> loop of \<open>hardDrop\<close> has no bound of its own: \<open>None\<close> is the
  loop that never leaves, \<open>Some (Inl e)\<close> a throw inside \<open>collides\<close>,
  \<open>Some (Inr dy)\<close> the value of \<open>dy\<close> when the loop ends.
\<close>

partial_function (option) hardDrop_loop :: "game \<Rightarrow> int \<Rightarrow> (error + int) option" where
  "hardDrop_loop g dy =
     (case collides g 0 (dy + 1) (rotationIndex (currentPiece g)) of
        Inl e \<Rightarrow> Some (Inl e)
      | Inr hit \<Rightarrow> if \<not> hit then hardDrop_loop g (dy + 1) else Some (Inr dy))"

declare hardDrop_loop.simps [code]

definition hardDrop :: "game \<Rightarrow> nat \<Rightarrow> (error + game) option" where
  "hardDrop g index =
     (case hardDrop_loop g 0 of
        None \<Rightarrow> None
      | Some (Inl e) \<Rightarrow> Some (Inl e)
      | Some (Inr dy) \<Rightarrow>
          Some (placePiece (g\<lparr>currentPiece := (currentPiece g)\<lparr>y := y (currentPiece g) + dy\<rparr>\<rparr>)
                  index))"

section \<open>Sessions and events\<close>

text \<open>
  Timer ids are positive, so \<open>if (dropTimer)\<close> is false only for \<open>null\<close> (and
  for an id 0 that no host hands out).
\<close>

definition resetGame :: "game \<Rightarrow> nat \<Rightarrow> error + game" where
  "resetGame g index =
     (case randomPiece index of
        Inl e \<Rightarrow> Inl e
      | Inr q \<Rightarrow>
          let g1 = g\<lparr>board := replicate ROWS (replicate COLS None),
                     score := Num 0, linesCleared := 0, dropInterval := 1000,
                     isGameOver := False, currentPiece := q\<rparr>;
              g2 = (if (case dropTimer g1 of None \<Rightarrow> False | Some i \<Rightarrow> i \<noteq> 0)
                    then clearInterval (dropTimer g1) g1 else g1)
          in Inr (setInterval g2))"

text \<open>The \<open>keydown\<close> listener, by \<open>e.code\<close>.\<close>

definition keydown :: "game \<Rightarrow> string \<Rightarrow> nat \<Rightarrow> (error + game) option" where
  "keydown g code index =
     (if isGameOver g then Some (Inr g)
      else if code = ''ArrowLeft'' \<or> code = ''KeyA'' then Some (move g (- 1))
      else if code = ''ArrowRight'' \<or> code = ''KeyD'' then Some (move g 1)
      else if code = ''ArrowUp'' \<or> code = ''KeyW'' then Some (rotate_piece g)
      else if code = ''ArrowDown'' \<or> code = ''KeyS'' then Some (softDrop g index)
      else if code = ''Space'' then hardDrop g index
      else Some (Inr g))"

text \<open>
  The operations on a session: the functions themselves, and the two listeners
  that call them (the timer calls \<open>drop\<close>). Each step comes with the index that
  \<open>randomPiece\<close> would draw if the step spawns a piece. The start button's
  \<open>resetGame\<close> begins a new session and is not an operation within one.
\<close>

datatype action = Move int | Rotate | SoftDrop | HardDrop | Drop | PlacePiece | KeyDown string

fun exec :: "game \<Rightarrow> action \<Rightarrow> nat \<Rightarrow> (error + game) option" where
  "exec g (Move dir) index = Some (move g dir)"
| "exec g Rotate index = Some (rotate_piece g)"
| "exec g SoftDrop index = Some (softDrop g index)"
| "exec g HardDrop index = hardDrop g index"
| "exec g Drop index = Some (drop_piece g index)"
| "exec g PlacePiece index = Some (placePiece g index)"
| "exec g (KeyDown code) index = keydown g code index"

text \<open>
  The states a program run can be in: the script's last statement calls
  \<open>resetGame\<close> when no timer has been started yet, the start button calls it
  again at any time, and every operation that returns leads to a next state.
\<close>

inductive reachable :: "game \<Rightarrow> bool" where
  load: "dropTimer g = None \<Longrightarrow> timers g = [] \<Longrightarrow> 0 < nextTimerId g \<Longrightarrow>
         index < length PIECES \<Longrightarrow> resetGame g index = Inr g' \<Longrightarrow> reachable g'"
| restart: "reachable g \<Longrightarrow> index < length PIECES \<Longrightarrow> resetGame g index = Inr g' \<Longrightarrow>
         reachable g'"
| step: "reachable g \<Longrightarrow> index < length PIECES \<Longrightarrow> exec g a index = Some (Inr g') \<Longrightarrow>
         reachable g'"

section \<open>Predicates used in the statements\<close>

text \<open>
  The three conditions of the collision contract for one cell at board position
  \<open>(cx, cy)\<close>: outside the columns, below the last row, or on a filled cell of a
  row at or below row 0.
\<close>

definition violates :: "board \<Rightarrow> int \<Rightarrow> int \<Rightarrow> bool" where
  "violates b cx cy \<longleftrightarrow>
     cx < 0 \<or> int COLS \<le> cx \<or> int ROWS \<le> cy \<or>
     (0 \<le> cy \<and> truthy (cell_at (b ! nat cy) (nat cx)))"

definition hits :: "game \<Rightarrow> int \<Rightarrow> int \<Rightarrow> nat \<Rightarrow> bool" where
  "hits g ox oy rot \<longleftrightarrow>
     (\<exists>(r, c) \<in> set (occupied (rotations (currentPiece g) ! rot)).
        violates (board g) (x (currentPiece g) + ox + int c) (y (currentPiece g) + oy + int r))"

definition board_ok :: "board \<Rightarrow> bool" where
  "board_ok b \<longleftrightarrow> length b = ROWS \<and> list_all (\<lambda>row. length row = COLS) b"

definition in_bounds :: "piece \<Rightarrow> bool" where
  "in_bounds p \<longleftrightarrow>
     list_all (\<lambda>(r, c). 0 \<le> x p + int c \<and> x p + int c < int COLS \<and> y p + int r < int ROWS)
       (occupied (rotations p ! rotationIndex p))"

definition piece_ok :: "piece \<Rightarrow> bool" where
  "piece_ok p \<longleftrightarrow>
     rotations p \<in> set (map rotations PIECES) \<and> rotationIndex p < length (rotations p) \<and>
     in_bounds p"

definition sound :: "game \<Rightarrow> bool" where
  "sound g \<longleftrightarrow> board_ok (board g) \<and> piece_ok (currentPiece g)"

text \<open>
  The timer table holds at most the one timer whose id \<open>dropTimer\<close> stores,
  running at the current drop interval.
\<close>

definition timers_ok :: "game \<Rightarrow> bool" where
  "timers_ok g \<longleftrightarrow>
     (case dropTimer g of
        None \<Rightarrow> timers g = []
      | Some i \<Rightarrow> 0 < i \<and> (timers g = [] \<or> timers g = [(i, dropInterval g)])) \<and>
     0 < nextTimerId g"

text \<open>
  What one operation may do to the drop interval: leave it, or lower it by 100
  from a value above 200 while the lines-cleared counter grows to a multiple
  of 10.
\<close>

definition interval_step :: "game \<Rightarrow> game \<Rightarrow> bool" where
  "interval_step g g' \<longleftrightarrow>
     dropInterval g' = dropInterval g \<or>
     (dropInterval g' = dropInterval g - 100 \<and> 200 < dropInterval g \<and>
      linesCleared g' mod 10 = 0 \<and> linesCleared g < linesCleared g')"

text \<open>The values the drop interval takes.\<close>

definition interval_ok :: "int \<Rightarrow> bool" where
  "interval_ok d \<longleftrightarrow> d \<in> set [1000, 900, 800, 700, 600, 500, 400, 300, 200]"

text \<open>No full row is left on the board, and the score is a number.\<close>

definition tidy :: "game \<Rightarrow> bool" where
  "tidy g \<longleftrightarrow> filter row_full (board g) = [] \<and> score g \<noteq> NaN"

text \<open>The invariant of the reachable states.\<close>

definition stable :: "game \<Rightarrow> bool" where
  "stable g \<longleftrightarrow> sound g \<and> timers_ok g \<and> interval_ok (dropInterval g) \<and> tidy g"

text \<open>A sequence of operations, each with the index its spawn would draw.\<close>

fun run :: "game \<Rightarrow> (action \<times> nat) list \<Rightarrow> (error + game) option" where
  "run g [] = Some (Inr g)"
| "run g ((a, index) # rest) =
     (case exec g a index of Some (Inr g') \<Rightarrow> run g' rest | other \<Rightarrow> other)"

text \<open>
  The session of the specification's scenario: an empty 20 x 10 board and the
  O piece as spawned, right after \<open>resetGame\<close> on a freshly loaded page.
\<close>

definition scenario :: game where
  "scenario =
     \<lparr>board = replicate ROWS (replicate COLS None),
      currentPiece = \<lparr>name = ''O'', colour = ''#e9c46a'', rotations = [[[1, 1], [1, 1]]],
                      rotationIndex = 0, x = 4, y = - 1\<rparr>,
      dropTimer = Some 1, dropInterval = 1000, score = Num 0, linesCleared = 0,
      isGameOver = False, timers = [(1, 1000)], nextTimerId = 2\<rparr>"

text \<open>
  A second session for the line-clearing examples: the scenario's session with
  one partly filled row above two full rows at the bottom of the board.
\<close>

definition stacked :: game where
  "stacked = scenario\<lparr>board :=
     replicate 17 (replicate 10 None)
       @ [Some ''#e63946'' # replicate 9 None,
          replicate 10 (Some ''#00b4d8''),
          replicate 10 (Some ''#00b4d8'')]\<rparr>"

text \<open>
  The specification's classification of the catalog by the number of rotation
  states: 4 x 4 matrices for two states, 3 x 3 for four states, 2 x 2 for one.
\<close>

definition classified_dimension :: "nat \<Rightarrow> nat option" where
  "classified_dimension states =
     (if states = 2 then Some 4 else if states = 4 then Some 3
      else if states = 1 then Some 2 else None)"

definition square :: "nat \<Rightarrow> shape \<Rightarrow> bool" where
  "square n s \<longleftrightarrow> length s = n \<and> list_all (\<lambda>row. length row = n) s"

definition matches_classification :: "piecedef \<Rightarrow> bool" where
  "matches_classification d \<longleftrightarrow>
     (case classified_dimension (length (rotations d)) of
        None \<Rightarrow> False
      | Some n \<Rightarrow> list_all (square n) (rotations d))"

text \<open>
  A third session for the rotation example: the I piece upright in the last
  column of an empty board.
\<close>

definition walled :: game where
  "walled = scenario\<lparr>currentPiece :=
     \<lparr>name = ''I'', colour = ''#00b4d8'', rotations = rotations (PIECES ! 0),
      rotationIndex = 1, x = 7, y = 5\<rparr>\<rparr>"

text \<open>
  A play of the scenario's session that clears ten lines one at a time: the O
  piece goes to the two last columns, four I pieces fill the two rows beside it.
  \<open>ten_lines\<close> stops before the hard drop that clears the tenth line.
\<close>

definition batch :: "(action \<times> nat) list" where
  "batch = replicate 4 (Move 1, 0) @ [(HardDrop, 0)]
         @ replicate 3 (Move (- 1), 0) @ [(HardDrop, 0)]
         @ [(Move 1, 0), (HardDrop, 0)]
         @ replicate 3 (Move (- 1), 0) @ [(HardDrop, 0)]
         @ [(Move 1, 0)]"

definition ten_lines :: "(action \<times> nat) list" where
  "ten_lines = concat (replicate 4 (batch @ [(HardDrop, 3)])) @ batch"

section \<open>The collision predicate\<close>

lemma occupied_iff:
  "(r, c) \<in> set (occupied s) \<longleftrightarrow> r < length s \<and> c < length (s ! r) \<and> s ! r ! c \<noteq> 0"
  by (auto simp: occupied_def)

lemma cell_check_rows:
  "ROWS \<le> length b \<Longrightarrow> cell_check b cx cy = Inr (violates b cx cy)"
  by (auto simp: cell_check_def violates_def)

lemma collides_scan_rows:
  "ROWS \<le> length b \<Longrightarrow>
   collides_scan b px py cells = Inr (\<exists>(r, c) \<in> set cells. violates b (px + int c) (py + int r))"
  by (induction cells) (auto simp: cell_check_rows split: bool.splits)

lemma collides_hits:
  "rot < length (rotations (currentPiece g)) \<Longrightarrow> ROWS \<le> length (board g) \<Longrightarrow>
   collides g ox oy rot = Inr (hits g ox oy rot)"
  by (simp add: collides_def collides_scan_rows Let_def hits_def)

text \<open>
  C1. On a board with its 20 rows and for a rotation index the piece has,
  \<open>collides\<close> returns true iff some occupied cell \<open>(r, c)\<close> of the tested rotation
  state, placed at \<open>(x + offsetX + c, y + offsetY + r)\<close>, is outside the columns
  [0, COLS), or at or below row ROWS, or at a row \<open>\<ge> 0\<close> on a filled board cell.
  A cell above the board (row \<open>< 0\<close>) is not tested against the board but is
  tested against the columns. The function returns a value and no state: it
  writes neither the board nor the piece.
\<close>

theorem collides_iff:
  assumes "rot < length (rotations (currentPiece g))" and "ROWS \<le> length (board g)"
  shows "collides g offsetX offsetY rot =
     Inr (\<exists>r c. r < length (rotations (currentPiece g) ! rot) \<and>
                c < length (rotations (currentPiece g) ! rot ! r) \<and>
                rotations (currentPiece g) ! rot ! r ! c \<noteq> 0 \<and>
                (x (currentPiece g) + offsetX + int c < 0 \<or>
                 int COLS \<le> x (currentPiece g) + offsetX + int c \<or>
                 int ROWS \<le> y (currentPiece g) + offsetY + int r \<or>
                 (0 \<le> y (currentPiece g) + offsetY + int r \<and>
                  truthy (cell_at (board g ! nat (y (currentPiece g) + offsetY + int r))
                            (nat (x (currentPiece g) + offsetX + int c))))))"
  using assms by (fastforce simp: collides_hits hits_def violates_def occupied_iff)

theorem collides_iff_witness:
  "0 < length (rotations (currentPiece scenario)) \<and> ROWS \<le> length (board scenario) \<and>
   collides scenario (- 5) 0 0 =
     Inr (\<exists>r c. r < length (rotations (currentPiece scenario) ! 0) \<and>
                c < length (rotations (currentPiece scenario) ! 0 ! r) \<and>
                rotations (currentPiece scenario) ! 0 ! r ! c \<noteq> 0 \<and>
                (x (currentPiece scenario) + (- 5) + int c < 0 \<or>
                 int COLS \<le> x (currentPiece scenario) + (- 5) + int c \<or>
                 int ROWS \<le> y (currentPiece scenario) + 0 + int r \<or>
                 (0 \<le> y (currentPiece scenario) + 0 + int r \<and>
                  truthy (cell_at (board scenario ! nat (y (currentPiece scenario) + 0 + int r))
                            (nat (x (currentPiece scenario) + (- 5) + int c))))))"
proof -
  have h1: "0 < length (rotations (currentPiece scenario))"
    by (simp add: scenario_def)
  have h2: "ROWS \<le> length (board scenario)"
    by (simp add: scenario_def)
  show ?thesis
    using h1 h2 collides_iff [OF h1 h2, of "- 5" 0] by blast
qed

section \<open>The catalog and spawning\<close>

lemma catalog_closed:
  "list_all (\<lambda>d. list_all (\<lambda>s. occupied s \<noteq> [] \<and> length s \<le> 4) (rotations d)) PIECES"
  by code_simp

lemma catalog_shape:
  assumes "rs \<in> set (map rotations PIECES)" and "k < length rs"
  shows "occupied (rs ! k) \<noteq> []" and "length (rs ! k) \<le> 4"
  using assms catalog_closed by (auto simp: list_all_iff)

lemma spawn_closed:
  "list_all (\<lambda>i. case randomPiece i of Inl e \<Rightarrow> False
       | Inr q \<Rightarrow> piece_ok q \<and> rotationIndex q = 0 \<and> y q = - 1) [0..<length PIECES]"
  by code_simp

lemma spawn_ok:
  assumes "index < length PIECES"
  obtains q where "randomPiece index = Inr q" and "piece_ok q" and "rotationIndex q = 0"
    and "y q = - 1"
proof -
  have "case randomPiece index of Inl e \<Rightarrow> False
       | Inr q \<Rightarrow> piece_ok q \<and> rotationIndex q = 0 \<and> y q = - 1"
    using assms spawn_closed by (simp add: list_all_iff)
  then show ?thesis
    using that by (cases "randomPiece index") auto
qed

section \<open>Moves guarded by the collision predicate\<close>

lemma sound_collides:
  "sound g \<Longrightarrow> rot < length (rotations (currentPiece g)) \<Longrightarrow>
   collides g ox oy rot = Inr (hits g ox oy rot)"
  by (simp add: collides_hits sound_def board_ok_def)

lemma sound_collides_current:
  "sound g \<Longrightarrow>
   collides g ox oy (rotationIndex (currentPiece g))
     = Inr (hits g ox oy (rotationIndex (currentPiece g)))"
  by (rule sound_collides) (simp_all add: sound_def piece_ok_def)

lemma move_sound:
  assumes "sound g"
  shows "move g dir = Inr (if hits g dir 0 (rotationIndex (currentPiece g)) then g
           else g\<lparr>currentPiece := (currentPiece g)\<lparr>x := x (currentPiece g) + dir\<rparr>\<rparr>)"
  by (simp add: move_def sound_collides_current [OF assms])

section \<open>Line clearing and scoring\<close>

declare clearLines_loop.simps [simp del]

lemma clearLines_loop_result:
  "row < int (length b) \<Longrightarrow>
   clearLines_loop b row n =
     Inr (replicate (length (filter row_full (take (nat (row + 1)) b))) empty_row
            @ filter (\<lambda>r. \<not> row_full r) (take (nat (row + 1)) b) @ drop (nat (row + 1)) b,
          n + length (filter row_full (take (nat (row + 1)) b)))"
proof (induction b row n rule: clearLines_loop.induct)
  case (1 b row n)
  show ?case
  proof (cases "row < 0")
    case True
    then show ?thesis
      by (subst clearLines_loop.simps) simp
  next
    case False
    let ?k = "nat row"
    have k: "?k < length b" "nat (row + 1) = Suc ?k" "nat (row - 1 + 1) = ?k" "\<not> length b \<le> nat row"
      using False "1.prems" by simp_all
    have tk: "take (Suc ?k) b = take ?k b @ [b ! ?k]"
      using k(1) by (rule take_Suc_conv_app_nth)
    have dk: "drop ?k b = b ! ?k # drop (Suc ?k) b"
      using k(1) by (simp add: Cons_nth_drop_Suc)
    show ?thesis
    proof (cases "row_full (b ! ?k)")
      case True
      let ?b = "empty_row # (take ?k b @ drop (Suc ?k) b)"
      have len: "row < int (length ?b)"
        using k(1) "1.prems" by simp
      have t: "take (Suc ?k) ?b = empty_row # take ?k b"
        using k(1) by simp
      have d: "drop (Suc ?k) ?b = drop (Suc ?k) b"
        using k(1) by simp
      have "clearLines_loop b row n = clearLines_loop ?b row (Suc n)"
        using False k(4) True by (subst clearLines_loop.simps) simp
      also have "\<dots> = Inr (replicate (length (filter row_full (take (Suc ?k) ?b))) empty_row
            @ filter (\<lambda>r. \<not> row_full r) (take (Suc ?k) ?b) @ drop (Suc ?k) ?b,
          Suc n + length (filter row_full (take (Suc ?k) ?b)))"
        using "1.IH"(1) [OF False k(4) _ len] True k(2) by simp
      also have "\<dots> = Inr (replicate (length (filter row_full (take (Suc ?k) b))) empty_row
            @ filter (\<lambda>r. \<not> row_full r) (take (Suc ?k) b) @ drop (Suc ?k) b,
          n + length (filter row_full (take (Suc ?k) b)))"
        unfolding t d tk using True
        by (simp add: empty_row_not_full replicate_app_Cons_same)
      finally show ?thesis by (simp add: k(2))
    next
      case nf: False
      have len: "row - 1 < int (length b)"
        using "1.prems" by simp
      have "clearLines_loop b row n = clearLines_loop b (row - 1) n"
        using False k(4) nf by (subst clearLines_loop.simps) simp
      also have "\<dots> = Inr (replicate (length (filter row_full (take ?k b))) empty_row
            @ filter (\<lambda>r. \<not> row_full r) (take ?k b) @ drop ?k b,
          n + length (filter row_full (take ?k b)))"
        using "1.IH"(2) [OF False k(4) _ len] nf k(3) by simp
      also have "\<dots> = Inr (replicate (length (filter row_full (take (Suc ?k) b))) empty_row
            @ filter (\<lambda>r. \<not> row_full r) (take (Suc ?k) b) @ drop (Suc ?k) b,
          n + length (filter row_full (take (Suc ?k) b)))"
        unfolding tk dk using nf by simp
      finally show ?thesis by (simp add: k(2))
    qed
  qed
qed

lemma clearLines_loop_board:
  assumes "length b = ROWS"
  shows "clearLines_loop b (int ROWS - 1) 0 =
     Inr (replicate (length (filter row_full b)) empty_row @ filter (\<lambda>r. \<not> row_full r) b,
          length (filter row_full b))"
proof -
  have "int ROWS - 1 < int (length b)" "nat (int ROWS - 1 + 1) = length b"
    using assms by simp_all
  then show ?thesis
    using clearLines_loop_result [of "int ROWS - 1" b 0] by simp
qed

lemma timer_frame [simp]:
  "board (setInterval g) = board g" "score (setInterval g) = score g"
  "linesCleared (setInterval g) = linesCleared g" "currentPiece (setInterval g) = currentPiece g"
  "isGameOver (setInterval g) = isGameOver g" "dropInterval (setInterval g) = dropInterval g"
  "board (clearInterval t g) = board g" "score (clearInterval t g) = score g"
  "linesCleared (clearInterval t g) = linesCleared g"
  "currentPiece (clearInterval t g) = currentPiece g"
  "isGameOver (clearInterval t g) = isGameOver g"
  "dropInterval (clearInterval t g) = dropInterval g"
  "dropTimer (clearInterval t g) = dropTimer g"
  "nextTimerId (clearInterval t g) = nextTimerId g"
  by (simp_all add: setInterval_def clearInterval_def)

lemma timers_ok_restarted:
  assumes "timers_ok g" and "dropTimer g' = dropTimer g" and "timers g' = timers g"
    and "nextTimerId g' = nextTimerId g"
    and "t = dropTimer g"
  shows "timers_ok (setInterval (clearInterval t g'))"
  using assms
  by (auto simp: timers_ok_def setInterval_def clearInterval_def split: option.splits)

lemma timers_ok_frame:
  assumes "timers_ok g" and "dropTimer g' = dropTimer g" and "timers g' = timers g"
    and "nextTimerId g' = nextTimerId g" and "dropInterval g' = dropInterval g"
  shows "timers_ok g'"
  using assms by (auto simp: timers_ok_def split: option.splits)

lemma filter_none_compl: "filter P xs = [] \<Longrightarrow> filter (\<lambda>v. \<not> P v) xs = xs"
  by (induction xs) (auto split: if_splits)

lemma clearLines_cases:
  assumes "length (board g) = ROWS"
  obtains g' where "clearLines g = Inr g'"
    and "board g' = replicate (length (filter row_full (board g))) empty_row
            @ filter (\<lambda>row. \<not> row_full row) (board g)"
    and "currentPiece g' = currentPiece g" and "isGameOver g' = isGameOver g"
    and "filter row_full (board g) = [] \<Longrightarrow> g' = g"
    and "filter row_full (board g) \<noteq> [] \<Longrightarrow>
           score g' = add_number (score g)
             (if length (filter row_full (board g)) < length lineScores
              then Num (lineScores ! length (filter row_full (board g))) else NaN) \<and>
           linesCleared g' = linesCleared g + int (length (filter row_full (board g)))"
    and "interval_step g g'" and "timers_ok g \<Longrightarrow> timers_ok g'"
proof (cases "filter row_full (board g) = []")
  case True
  then have "clearLines g = Inr g"
    by (simp add: clearLines_def clearLines_loop_board [OF assms] filter_none_compl)
  with True show ?thesis
    using that [of g] by (simp add: filter_none_compl interval_step_def)
next
  case False
  let ?n = "length (filter row_full (board g))"
  let ?g1 = "g\<lparr>board := replicate ?n empty_row @ filter (\<lambda>row. \<not> row_full row) (board g),
                score := add_number (score g)
                  (if ?n < length lineScores then Num (lineScores ! ?n) else NaN),
                linesCleared := linesCleared g + int ?n\<rparr>"
  let ?g2 = "setInterval (clearInterval (dropTimer ?g1)
               (?g1\<lparr>dropInterval := dropInterval ?g1 - 100\<rparr>))"
  let ?c = "linesCleared ?g1 mod 10 = 0 \<and> dropInterval ?g1 > 200"
  have eq: "clearLines g = Inr (if ?c then ?g2 else ?g1)"
    using False by (simp add: clearLines_def clearLines_loop_board [OF assms] Let_def)
  show ?thesis
  proof (cases ?c)
    case True
    have "clearLines g = Inr ?g2"
      unfolding eq by (subst if_P [OF True]) (rule refl)
    moreover have "interval_step g ?g2"
      using True False by (simp add: interval_step_def)
    moreover have "timers_ok g \<Longrightarrow> timers_ok ?g2"
      by (erule timers_ok_restarted) simp_all
    ultimately show ?thesis
      by (intro that [of ?g2]) (use False in simp_all)
  next
    case nc: False
    have "clearLines g = Inr ?g1"
      unfolding eq by (subst if_not_P [OF nc]) (rule refl)
    moreover have "interval_step g ?g1"
      by (simp add: interval_step_def)
    moreover have "timers_ok g \<Longrightarrow> timers_ok ?g1"
      by (erule timers_ok_frame) simp_all
    ultimately show ?thesis
      by (intro that [of ?g1]) (use False in simp_all)
  qed
qed

text \<open>
  C4. On a board of 20 rows \<open>clearLines\<close> returns, and the new board is the old
  one with exactly the full rows removed, as many empty rows put on top, and the
  other rows in their old order. Since every full row is removed wherever it
  stands, full rows next to each other are all found. With no full row the whole
  state is unchanged.
\<close>

theorem clearLines_board:
  assumes "length (board g) = ROWS"
  shows "\<exists>g'. clearLines g = Inr g' \<and>
     board g' = replicate (length (filter row_full (board g))) (replicate COLS None)
                  @ filter (\<lambda>row. \<not> row_full row) (board g) \<and>
     (filter row_full (board g) = [] \<longrightarrow> g' = g)"
  using clearLines_cases [OF assms] unfolding empty_row_def by metis

lemma stacked_rows:
  "length (board stacked) = ROWS"
  "filter row_full (board stacked) = [replicate 10 (Some ''#00b4d8''), replicate 10 (Some ''#00b4d8'')]"
  "filter (\<lambda>row. \<not> row_full row) (board stacked)
     = replicate 17 (replicate 10 None) @ [Some ''#e63946'' # replicate 9 None]"
  by code_simp+

theorem clearLines_board_witness:
  "length (board stacked) = ROWS \<and>
   (\<exists>g'. clearLines stacked = Inr g' \<and>
      board g' = replicate 19 (replicate 10 None) @ [Some ''#e63946'' # replicate 9 None])"
proof -
  obtain g' where "clearLines stacked = Inr g'"
    and "board g' = replicate (length (filter row_full (board stacked))) (replicate COLS None)
                  @ filter (\<lambda>row. \<not> row_full row) (board stacked)"
    using clearLines_board [OF stacked_rows(1)] by blast
  moreover have "replicate (length [replicate 10 (Some ''#00b4d8''), replicate 10 (Some ''#00b4d8'')])
          (replicate COLS None)
        @ replicate 17 (replicate 10 None) @ [Some ''#e63946'' # replicate 9 None]
      = replicate 19 (replicate 10 None) @ [Some ''#e63946'' # replicate 9 (None :: cell)]"
    by code_simp
  ultimately show ?thesis
    by (simp add: stacked_rows)
qed

text \<open>
  C5. When \<open>clearLines\<close> clears \<open>n\<close> rows, with \<open>n\<close> within the score table,
  the score grows by entry \<open>n\<close> of [0, 40, 100, 300, 1200] and the lines-cleared
  counter by \<open>n\<close>: two rows add 100 points and 2 lines, no row leaves both
  unchanged.
\<close>

theorem clearLines_scoring:
  assumes "length (board g) = ROWS" and "n = length (filter row_full (board g))"
    and "n \<le> 4" and "score g = Num s"
  shows "\<exists>g'. clearLines g = Inr g' \<and>
     score g' = Num (s + [0, 40, 100, 300, 1200] ! n) \<and>
     linesCleared g' = linesCleared g + int n \<and>
     (n = 2 \<longrightarrow> score g' = Num (s + 100) \<and> linesCleared g' = linesCleared g + 2) \<and>
     (n = 0 \<longrightarrow> score g' = score g \<and> linesCleared g' = linesCleared g)"
proof -
  from clearLines_cases [OF assms(1)] obtain g' where g': "clearLines g = Inr g'"
    and same: "filter row_full (board g) = [] \<Longrightarrow> g' = g"
    and more: "filter row_full (board g) \<noteq> [] \<Longrightarrow>
           score g' = add_number (score g)
             (if length (filter row_full (board g)) < length lineScores
              then Num (lineScores ! length (filter row_full (board g))) else NaN) \<and>
           linesCleared g' = linesCleared g + int (length (filter row_full (board g)))"
    by blast
  have "score g' = Num (s + [0, 40, 100, 300, 1200] ! n) \<and>
        linesCleared g' = linesCleared g + int n"
  proof (cases "n = 0")
    case True
    then show ?thesis
      using same assms(2,4) by simp
  next
    case False
    then show ?thesis
      using more assms(2,3,4) by (simp add: lineScores_def add_number_def)
  qed
  then show ?thesis
    using g' assms(4) by auto
qed

theorem clearLines_scoring_witness:
  "length (board stacked) = ROWS \<and> 2 = length (filter row_full (board stacked)) \<and>
   (2::nat) \<le> 4 \<and> score stacked = Num 0 \<and> linesCleared stacked = 0 \<and>
   (\<exists>g'. clearLines stacked = Inr g' \<and> score g' = Num 100 \<and> linesCleared g' = 2)"
proof -
  have h: "length (board stacked) = ROWS" "2 = length (filter row_full (board stacked))"
    "(2::nat) \<le> 4" "score stacked = Num 0" "linesCleared stacked = 0"
    by (simp_all add: stacked_rows) (simp_all add: stacked_def scenario_def)
  show ?thesis
    using h clearLines_scoring [OF h(1) h(2) h(3) h(4)] by auto
qed

section \<open>The piece catalog\<close>

text \<open>
  C9, as amended. The catalog has exactly the 7 variants I, J, L, O, S, T, Z, and
  every rotation matrix of a variant is square with the variant's dimension:
  I has 2 states of 4 x 4; J, L and T have 4 states of 3 x 3; S and Z have 2
  states of 3 x 3; O has 1 state of 2 x 2.
\<close>

theorem catalog_dimensions:
  "list_all2 (\<lambda>d (nm, states, n).
       name d = nm \<and> length (rotations d) = states \<and> list_all (square n) (rotations d))
     PIECES
     [(''I'', 2, 4), (''J'', 4, 3), (''L'', 4, 3), (''O'', 1, 2),
      (''S'', 2, 3), (''T'', 4, 3), (''Z'', 2, 3)]"
  by code_simp

text \<open>
  The classification as the specification words it fails on S (and Z): two
  rotation states, for which it prescribes 4 x 4, but 3 x 3 matrices, for which
  it prescribes four states.
\<close>

theorem classification_counterexample:
  "name (PIECES ! 4) = ''S'' \<and> length (rotations (PIECES ! 4)) = 2 \<and>
   list_all (square 3) (rotations (PIECES ! 4)) \<and>
   classified_dimension 2 = Some 4 \<and>
   \<not> matches_classification (PIECES ! 4)"
  by code_simp

section \<open>Rotation with kicks\<close>

lemma rotate_kicks_find:
  assumes "n < length (rotations (currentPiece g))" and "ROWS \<le> length (board g)"
  shows "rotate_kicks g n kicks =
     Inr (case find (\<lambda>offset. collides g offset 0 n = Inr False) kicks of
            None \<Rightarrow> g
          | Some offset \<Rightarrow>
              g\<lparr>currentPiece := (currentPiece g)
                \<lparr>rotationIndex := n, x := x (currentPiece g) + offset\<rparr>\<rparr>)"
  by (induction kicks) (simp_all add: collides_hits [OF assms] split: bool.splits)

lemma game_piece_update_same:
  "g\<lparr>currentPiece := q\<rparr> = g \<longleftrightarrow> q = currentPiece g"
  by (cases g) auto

lemma piece_update_same:
  "p\<lparr>rotationIndex := n, x := v\<rparr> = p \<longleftrightarrow> n = rotationIndex p \<and> v = x p"
  by (cases p) auto

lemma piece_rotation_update_same:
  "p\<lparr>rotationIndex := n\<rparr> = p \<longleftrightarrow> n = rotationIndex p"
  by (cases p) auto

lemma next_rotation:
  assumes "k < (n::nat)"
  shows "(k + 1) mod n < n" and "(k + 1) mod n = k \<longleftrightarrow> n = 1"
proof -
  show "(k + 1) mod n < n" using assms by simp
  show "(k + 1) mod n = k \<longleftrightarrow> n = 1"
  proof (cases "k + 1 < n")
    case True
    then show ?thesis by simp
  next
    case False
    then have "k + 1 = n" using assms by simp
    then show ?thesis by auto
  qed
qed

lemma rotate_piece_find:
  assumes "rotationIndex (currentPiece g) < length (rotations (currentPiece g))"
    and "ROWS \<le> length (board g)"
    and "nextRotation = (rotationIndex (currentPiece g) + 1) mod length (rotations (currentPiece g))"
  shows "rotate_piece g =
     Inr (case find (\<lambda>offset. collides g offset 0 nextRotation = Inr False) [0, - 1, 1, - 2, 2] of
            None \<Rightarrow> g
          | Some offset \<Rightarrow>
              g\<lparr>currentPiece := (currentPiece g)
                \<lparr>rotationIndex := nextRotation, x := x (currentPiece g) + offset\<rparr>\<rparr>)"
proof -
  have n: "nextRotation < length (rotations (currentPiece g))"
    using next_rotation(1) [OF assms(1)] assms(3) by simp
  have ne: "rotations (currentPiece g) \<noteq> []"
    using assms(1) by auto
  have eq: "rotate_piece g = rotate_kicks g nextRotation [0, - 1, 1, - 2, 2]"
    using ne assms(3) by (simp add: rotate_piece_def Let_def)
  show ?thesis
    unfolding eq by (rule rotate_kicks_find [OF n assms(2)])
qed

text \<open>
  C3, as amended. \<open>rotate\<close> computes the next rotation index as
  (current + 1) mod (number of rotation states) and applies the first of the
  offsets 0, -1, +1, -2, +2, in that order, for which \<open>collides\<close> at
  (offset, 0, next) reports no collision: the rotation index becomes the next
  one and \<open>x\<close> is shifted by the offset. If all five collide nothing changes.
  The state is unchanged iff all five offsets collide, or the piece has a
  single rotation state and offset 0 does not collide.
\<close>

theorem rotate_first_free_kick:
  assumes "rotationIndex (currentPiece g) < length (rotations (currentPiece g))"
    and "ROWS \<le> length (board g)"
    and "nextRotation = (rotationIndex (currentPiece g) + 1) mod length (rotations (currentPiece g))"
  shows "rotate_piece g =
     Inr (case find (\<lambda>offset. collides g offset 0 nextRotation = Inr False) [0, - 1, 1, - 2, 2] of
            None \<Rightarrow> g
          | Some offset \<Rightarrow>
              g\<lparr>currentPiece := (currentPiece g)
                \<lparr>rotationIndex := nextRotation, x := x (currentPiece g) + offset\<rparr>\<rparr>) \<and>
   (rotate_piece g = Inr g \<longleftrightarrow>
      list_all (\<lambda>offset. collides g offset 0 nextRotation = Inr True) [0, - 1, 1, - 2, 2] \<or>
      (length (rotations (currentPiece g)) = 1 \<and> collides g 0 0 nextRotation = Inr False))"
proof -
  have n: "nextRotation < length (rotations (currentPiece g))"
    and same: "nextRotation = rotationIndex (currentPiece g)
               \<longleftrightarrow> length (rotations (currentPiece g)) = 1"
    using next_rotation [OF assms(1)] assms(3) by simp_all
  note first = rotate_piece_find [OF assms]
  have "rotate_piece g = Inr g \<longleftrightarrow>
      list_all (\<lambda>offset. collides g offset 0 nextRotation = Inr True) [0, - 1, 1, - 2, 2] \<or>
      (length (rotations (currentPiece g)) = 1 \<and> collides g 0 0 nextRotation = Inr False)"
    unfolding first
    by (simp add: collides_hits [OF n assms(2)] game_piece_update_same piece_update_same
        piece_rotation_update_same same)
  with first show ?thesis by (rule conjI)
qed

theorem rotate_first_free_kick_witness:
  "rotationIndex (currentPiece walled) < length (rotations (currentPiece walled)) \<and>
   ROWS \<le> length (board walled) \<and>
   collides walled 0 0 0 = Inr True \<and> collides walled (- 1) 0 0 = Inr False \<and>
   rotate_piece walled =
     Inr (walled\<lparr>currentPiece := (currentPiece walled)\<lparr>rotationIndex := 0, x := 6\<rparr>\<rparr>) \<and>
   rotate_piece walled \<noteq> Inr walled"
proof -
  have h: "rotationIndex (currentPiece walled) < length (rotations (currentPiece walled))"
    "ROWS \<le> length (board walled)"
    "0 = (rotationIndex (currentPiece walled) + 1) mod length (rotations (currentPiece walled))"
    by code_simp+
  have c: "collides walled 0 0 0 = Inr True" "collides walled (- 1) 0 0 = Inr False"
    "find (\<lambda>offset. collides walled offset 0 0 = Inr False) [0, - 1, 1, - 2, 2] = Some (- 1)"
    "length (rotations (currentPiece walled)) \<noteq> 1" "x (currentPiece walled) + (- 1) = 6"
    by code_simp+
  note kick = rotate_first_free_kick [OF h]
  have "rotate_piece walled =
     Inr (walled\<lparr>currentPiece := (currentPiece walled)\<lparr>rotationIndex := 0, x := 6\<rparr>\<rparr>)"
    using kick [THEN conjunct1] c(3,5) by simp
  moreover have "rotate_piece walled \<noteq> Inr walled"
    using kick [THEN conjunct2] c(1,2,4) by simp
  ultimately show ?thesis
    using h(1,2) c(1,2) by simp
qed

text \<open>
  The claim as stated fails for the O piece: with its single rotation state and
  a free position, \<open>rotate\<close> applies offset 0 and leaves the state as it was,
  although offset 0 does not collide.
\<close>

theorem rotate_unchanged_counterexample:
  "rotate_piece scenario = Inr scenario \<and>
   collides scenario 0 0 ((rotationIndex (currentPiece scenario) + 1)
      mod length (rotations (currentPiece scenario))) = Inr False"
  by code_simp

section \<open>Locking a piece\<close>

lemma board_ok_update:
  assumes "board_ok b" and "length row = COLS"
  shows "board_ok (b[i := row])"
  using assms
  by (auto simp: board_ok_def list_all_iff dest!: set_update_subset_insert [THEN subsetD])

lemma set_cell_inside:
  assumes "0 \<le> cx" and "nat cx < length row"
  shows "set_cell row cx v = row[nat cx := v]"
  using assms by (simp add: set_cell_def)

lemma write_cells_board:
  assumes "board_ok b"
    and "list_all (\<lambda>(r, c). 0 \<le> px + int c \<and> px + int c < int COLS \<and> py + int r < int ROWS) cells"
  shows "\<exists>b'. write_cells b px py col cells = Inr b' \<and> board_ok b' \<and>
     (\<forall>i j. i < ROWS \<longrightarrow> j < COLS \<longrightarrow>
        b' ! i ! j = (if (\<exists>(r, c) \<in> set cells. int i = py + int r \<and> int j = px + int c)
                      then Some col else b ! i ! j))"
  using assms
proof (induction cells arbitrary: b)
  case Nil
  then show ?case by simp
next
  case (Cons cell cells)
  obtain r c where cell: "cell = (r, c)" by (cases cell)
  have bounds: "0 \<le> px + int c" "px + int c < int COLS" "py + int r < int ROWS"
    and rest: "list_all (\<lambda>(r, c). 0 \<le> px + int c \<and> px + int c < int COLS \<and> py + int r < int ROWS) cells"
    using Cons.prems(2) cell by simp_all
  have len: "length b = ROWS" and rows: "\<And>i. i < ROWS \<Longrightarrow> length (b ! i) = COLS"
    using Cons.prems(1) by (simp_all add: board_ok_def list_all_length)
  show ?case
  proof (cases "0 \<le> py + int r")
    case False
    from Cons.IH [OF Cons.prems(1) rest] obtain b' where
      b': "write_cells b px py col cells = Inr b'" "board_ok b'"
      "\<forall>i j. i < ROWS \<longrightarrow> j < COLS \<longrightarrow>
        b' ! i ! j = (if (\<exists>(r, c) \<in> set cells. int i = py + int r \<and> int j = px + int c)
                      then Some col else b ! i ! j)"
      by blast
    have "write_cells b px py col (cell # cells) = Inr b'"
      using False b'(1) cell by simp
    moreover have "\<forall>i j. i < ROWS \<longrightarrow> j < COLS \<longrightarrow>
        b' ! i ! j = (if (\<exists>(r, c) \<in> set (cell # cells). int i = py + int r \<and> int j = px + int c)
                      then Some col else b ! i ! j)"
      using b'(3) False cell by auto
    ultimately show ?thesis
      using b'(2) by blast
  next
    case True
    let ?i = "nat (py + int r)" and ?j = "nat (px + int c)"
    let ?b = "b[?i := set_cell (b ! ?i) (px + int c) (Some col)]"
    have i: "?i < ROWS" and j: "?j < COLS"
      using True bounds by simp_all
    have sc: "set_cell (b ! ?i) (px + int c) (Some col) = (b ! ?i)[?j := Some col]"
      using bounds(1) j rows [OF i] by (simp add: set_cell_inside)
    have ok: "board_ok ?b"
      using Cons.prems(1) rows [OF i] by (intro board_ok_update) (simp_all add: sc)
    from Cons.IH [OF ok rest] obtain b' where
      b': "write_cells ?b px py col cells = Inr b'" "board_ok b'"
      "\<forall>i j. i < ROWS \<longrightarrow> j < COLS \<longrightarrow>
        b' ! i ! j = (if (\<exists>(r, c) \<in> set cells. int i = py + int r \<and> int j = px + int c)
                      then Some col else ?b ! i ! j)"
      by blast
    have "write_cells b px py col (cell # cells) = Inr b'"
      using True b'(1) cell i len by simp
    moreover have "b' ! i' ! j' =
        (if (\<exists>(r, c) \<in> set (cell # cells). int i' = py + int r \<and> int j' = px + int c)
         then Some col else b ! i' ! j')" if "i' < ROWS" "j' < COLS" for i' j'
    proof -
      have here: "(int i' = py + int r \<and> int j' = px + int c) \<longleftrightarrow> (i' = ?i \<and> j' = ?j)"
        using True bounds(1) by auto
      have "?b ! i' ! j' = (if i' = ?i \<and> j' = ?j then Some col else b ! i' ! j')"
        using that i j len rows [OF i] by (auto simp: sc nth_list_update)
      then show ?thesis
        using b'(3) that here cell by auto
    qed
    ultimately show ?thesis
      using b'(2) by blast
  qed
qed

lemma clearLines_board_ok:
  assumes "board_ok (board g)" and "clearLines g = Inr g'"
  shows "board_ok (board g')"
proof -
  have len: "length (board g) = ROWS"
    using assms(1) by (simp add: board_ok_def)
  from clearLines_cases [OF len] assms(2)
  have b: "board g' = replicate (length (filter row_full (board g))) empty_row
            @ filter (\<lambda>row. \<not> row_full row) (board g)"
    by auto
  have "length (board g') = length (board g)"
    unfolding b using sum_length_filter_compl [of row_full "board g"] by simp
  moreover have "list_all (\<lambda>row. length row = COLS) (board g')"
    unfolding b using assms(1) by (auto simp: board_ok_def list_all_iff empty_row_def)
  ultimately show ?thesis
    using len by (simp add: board_ok_def)
qed

lemma endGame_frame [simp]:
  "board (endGame g) = board g" "currentPiece (endGame g) = currentPiece g"
  "score (endGame g) = score g" "linesCleared (endGame g) = linesCleared g"
  "dropInterval (endGame g) = dropInterval g" "isGameOver (endGame g) = True"
  "dropTimer (endGame g) = dropTimer g" "nextTimerId (endGame g) = nextTimerId g"
  by (simp_all add: endGame_def)

lemma endGame_timers:
  assumes "timers_ok g"
  shows "timers (endGame g) = []" and "timers_ok (endGame g)"
  using assms
  by (auto simp: timers_ok_def endGame_def clearInterval_def split: option.splits)

lemma interval_step_frame:
  assumes "interval_step g1 g2" and "dropInterval g = dropInterval g1"
    and "linesCleared g = linesCleared g1" and "dropInterval g' = dropInterval g2"
    and "linesCleared g' = linesCleared g2"
  shows "interval_step g g'"
  using assms by (simp add: interval_step_def)

lemma placePiece_cases:
  assumes "sound g" and "index < length PIECES"
  obtains b g1 q where
    "write_cells (board g) (x (currentPiece g)) (y (currentPiece g)) (colour (currentPiece g))
       (occupied (rotations (currentPiece g) ! rotationIndex (currentPiece g))) = Inr b"
    and "board_ok b"
    and "\<forall>i j. i < ROWS \<longrightarrow> j < COLS \<longrightarrow>
        b ! i ! j =
          (if (\<exists>(r, c) \<in> set (occupied (rotations (currentPiece g) ! rotationIndex (currentPiece g))).
                 int i = y (currentPiece g) + int r \<and> int j = x (currentPiece g) + int c)
           then Some (colour (currentPiece g)) else board g ! i ! j)"
    and "clearLines (g\<lparr>board := b\<rparr>) = Inr g1"
    and "randomPiece index = Inr q" and "piece_ok q" and "rotationIndex q = 0"
    and "collides (g1\<lparr>currentPiece := q\<rparr>) 0 0 (rotationIndex q)
           = Inr (hits (g1\<lparr>currentPiece := q\<rparr>) 0 0 0)"
    and "placePiece g index =
           Inr (if hits (g1\<lparr>currentPiece := q\<rparr>) 0 0 0 then endGame (g1\<lparr>currentPiece := q\<rparr>)
                else g1\<lparr>currentPiece := q\<rparr>)"
    and "sound (g1\<lparr>currentPiece := q\<rparr>)"
proof -
  let ?p = "currentPiece g"
  have ri: "rotationIndex ?p < length (rotations ?p)" and ib: "in_bounds ?p"
    and bo: "board_ok (board g)"
    using assms(1) by (simp_all add: sound_def piece_ok_def)
  from write_cells_board [OF bo ib [unfolded in_bounds_def], of "colour ?p"]
  obtain b where b: "write_cells (board g) (x ?p) (y ?p) (colour ?p)
       (occupied (rotations ?p ! rotationIndex ?p)) = Inr b" "board_ok b"
    "\<forall>i j. i < ROWS \<longrightarrow> j < COLS \<longrightarrow>
        b ! i ! j =
          (if (\<exists>(r, c) \<in> set (occupied (rotations ?p ! rotationIndex ?p)).
                 int i = y ?p + int r \<and> int j = x ?p + int c)
           then Some (colour ?p) else board g ! i ! j)"
    by blast
  have len: "length (board (g\<lparr>board := b\<rparr>)) = ROWS"
    using b(2) by (simp add: board_ok_def)
  from clearLines_cases [OF len] obtain g1 where
    g1: "clearLines (g\<lparr>board := b\<rparr>) = Inr g1"
    by blast
  have ok1: "board_ok (board g1)"
    using clearLines_board_ok [OF _ g1] b(2) by simp
  from spawn_ok [OF assms(2)] obtain q where
    q: "randomPiece index = Inr q" "piece_ok q" "rotationIndex q = 0"
    by blast
  let ?g2 = "g1\<lparr>currentPiece := q\<rparr>"
  have s2: "sound ?g2"
    using ok1 q(2) by (simp add: sound_def)
  have c: "collides ?g2 0 0 (rotationIndex q) = Inr (hits ?g2 0 0 0)"
    using sound_collides_current [OF s2, of 0 0] q(3) by simp
  have pp: "placePiece g index = Inr (if hits ?g2 0 0 0 then endGame ?g2 else ?g2)"
    using ri b(1) g1 q(1) c by (simp add: placePiece_def Let_def)
  from b g1 q c pp s2 show ?thesis
    by (rule that)
qed

text \<open>
  A lock changes cells only in the rows the piece's matrix covers, so on a board
  without full rows it completes at most as many rows as the matrix has.
\<close>

lemma row_full_cong:
  assumes "length row = COLS" and "length row' = COLS" and "\<forall>j < COLS. row ! j = row' ! j"
  shows "row_full row = row_full row'"
  using assms by (simp add: row_full_def list_all_iff cell_at_def)

lemma lock_full_rows:
  assumes "board_ok b0" and "board_ok b" and "filter row_full b0 = []"
    and "\<forall>i j. i < ROWS \<longrightarrow> j < COLS \<longrightarrow>
        b ! i ! j = (if (\<exists>(r, c) \<in> set (occupied shape). int i = py + int r \<and> int j = px + int c)
                      then v else b0 ! i ! j)"
  shows "length (filter row_full b) \<le> length shape"
proof -
  let ?touched = "(\<lambda>r. nat (py + int r)) ` {..<length shape}"
  have len: "length b = ROWS" "length b0 = ROWS"
    and rows: "\<And>i. i < ROWS \<Longrightarrow> length (b ! i) = COLS"
              "\<And>i. i < ROWS \<Longrightarrow> length (b0 ! i) = COLS"
    using assms(1,2) by (simp_all add: board_ok_def list_all_length)
  have "{i. i < length b \<and> row_full (b ! i)} \<subseteq> ?touched"
  proof
    fix i assume "i \<in> {i. i < length b \<and> row_full (b ! i)}"
    then have i: "i < ROWS" and full: "row_full (b ! i)"
      using len by simp_all
    have "\<not> row_full (b0 ! i)"
      using assms(3) i len(2) by (auto simp: filter_empty_conv)
    then have "\<not> (\<forall>j < COLS. b ! i ! j = b0 ! i ! j)"
      using row_full_cong [OF rows(1) [OF i] rows(2) [OF i]] full by blast
    then obtain j where j: "j < COLS" "b ! i ! j \<noteq> b0 ! i ! j"
      by blast
    then have "\<exists>(r, c) \<in> set (occupied shape). int i = py + int r \<and> int j = px + int c"
      using assms(4) i by (auto split: if_splits)
    then obtain r c where "(r, c) \<in> set (occupied shape)" "int i = py + int r"
      by blast
    then have "r < length shape" "i = nat (py + int r)"
      by (simp_all add: occupied_iff)
    then show "i \<in> ?touched"
      by blast
  qed
  then have "card {i. i < length b \<and> row_full (b ! i)} \<le> card ?touched"
    by (intro card_mono) simp_all
  also have "\<dots> \<le> length shape"
    using card_image_le [of "{..<length shape}" "\<lambda>r. nat (py + int r)"] by simp
  finally show ?thesis
    by (simp add: length_filter_conv_card)
qed

lemma clearLines_tidy:
  assumes "length (board g) = ROWS" and "clearLines g = Inr g'"
    and "length (filter row_full (board g)) \<le> 4" and "score g \<noteq> NaN"
  shows "tidy g'"
proof (rule clearLines_cases [OF assms(1)])
  fix g2
  assume c: "clearLines g = Inr g2"
    and b: "board g2 = replicate (length (filter row_full (board g))) empty_row
            @ filter (\<lambda>row. \<not> row_full row) (board g)"
    and same: "filter row_full (board g) = [] \<Longrightarrow> g2 = g"
    and more: "filter row_full (board g) \<noteq> [] \<Longrightarrow>
           score g2 = add_number (score g)
             (if length (filter row_full (board g)) < length lineScores
              then Num (lineScores ! length (filter row_full (board g))) else NaN) \<and>
           linesCleared g2 = linesCleared g + int (length (filter row_full (board g)))"
  have g2: "g2 = g'"
    using c assms(2) by simp
  have "filter row_full (board g2) = []"
    unfolding b by (simp add: empty_row_not_full filter_empty_conv)
  moreover have "score g2 \<noteq> NaN"
  proof (cases "filter row_full (board g) = []")
    case True
    then show ?thesis using same assms(4) by simp
  next
    case False
    obtain s where "score g = Num s"
      using assms(4) by (cases "score g") simp_all
    then show ?thesis
      using more [OF False] assms(3) by (simp add: lineScores_def add_number_def)
  qed
  ultimately show ?thesis
    by (simp add: tidy_def g2)
qed

section \<open>The invariant of the reachable states\<close>

lemma interval_ok_step:
  assumes "interval_ok (dropInterval g)" and "interval_step g g'"
  shows "interval_ok (dropInterval g')" and "dropInterval g' \<le> dropInterval g"
  using assms by (auto simp: interval_ok_def interval_step_def)

lemma interval_step_refl: "dropInterval g' = dropInterval g \<Longrightarrow> interval_step g g'"
  by (simp add: interval_step_def)

lemma piece_ok_placed:
  assumes "piece_ok (currentPiece g)" and "rot < length (rotations (currentPiece g))"
    and "\<not> hits g ox oy rot"
    and "rotations q = rotations (currentPiece g)" and "rotationIndex q = rot"
    and "x q = x (currentPiece g) + ox" and "y q = y (currentPiece g) + oy"
  shows "piece_ok q"
proof -
  have "in_bounds q"
    using assms(3-7)
    by (force simp: hits_def in_bounds_def violates_def list_all_iff)
  then show ?thesis
    using assms(1,2,4,5) by (simp add: piece_ok_def)
qed

lemma stable_piece:
  assumes "stable g" and "piece_ok q"
  shows "stable (g\<lparr>currentPiece := q\<rparr>)" and "interval_step g (g\<lparr>currentPiece := q\<rparr>)"
  using assms
  by (auto simp: stable_def sound_def timers_ok_def interval_step_def tidy_def
      split: option.splits)

lemma stable_current:
  assumes "stable g"
  shows "sound g" and "rotationIndex (currentPiece g) < length (rotations (currentPiece g))"
    and "piece_ok (currentPiece g)" and "ROWS \<le> length (board g)"
  using assms by (simp_all add: stable_def sound_def piece_ok_def board_ok_def)

lemma move_stable:
  assumes "stable g"
  shows "\<exists>g'. move g dir = Inr g' \<and> stable g' \<and> interval_step g g'"
proof (cases "hits g dir 0 (rotationIndex (currentPiece g))")
  case True
  then show ?thesis
    using assms by (simp add: move_sound [OF stable_current(1) [OF assms]] interval_step_refl)
next
  case False
  have "piece_ok ((currentPiece g)\<lparr>x := x (currentPiece g) + dir\<rparr>)"
    by (rule piece_ok_placed [OF stable_current(3,2) [OF assms] False]) simp_all
  from stable_piece [OF assms this] False show ?thesis
    by (simp add: move_sound [OF stable_current(1) [OF assms]])
qed

lemma fall_stable:
  assumes "stable g" and "\<not> hits g 0 dy (rotationIndex (currentPiece g))"
  shows "stable (g\<lparr>currentPiece := (currentPiece g)\<lparr>y := y (currentPiece g) + dy\<rparr>\<rparr>)"
    and "interval_step g (g\<lparr>currentPiece := (currentPiece g)\<lparr>y := y (currentPiece g) + dy\<rparr>\<rparr>)"
proof -
  have "piece_ok ((currentPiece g)\<lparr>y := y (currentPiece g) + dy\<rparr>)"
    by (rule piece_ok_placed [OF stable_current(3,2) [OF assms(1)] assms(2)]) simp_all
  from stable_piece [OF assms(1) this]
  show "stable (g\<lparr>currentPiece := (currentPiece g)\<lparr>y := y (currentPiece g) + dy\<rparr>\<rparr>)"
    and "interval_step g (g\<lparr>currentPiece := (currentPiece g)\<lparr>y := y (currentPiece g) + dy\<rparr>\<rparr>)"
    by simp_all
qed

lemma find_holds: "find P xs = Some v \<Longrightarrow> P v"
  by (induction xs) (auto split: if_splits)

lemma rotate_stable:
  assumes "stable g"
  shows "\<exists>g'. rotate_piece g = Inr g' \<and> stable g' \<and> interval_step g g'"
proof -
  let ?n = "(rotationIndex (currentPiece g) + 1) mod length (rotations (currentPiece g))"
  note cur = stable_current [OF assms]
  have n: "?n < length (rotations (currentPiece g))"
    using next_rotation(1) [OF cur(2)] .
  from rotate_piece_find [OF cur(2,4) refl]
  have eq: "rotate_piece g =
     Inr (case find (\<lambda>offset. collides g offset 0 ?n = Inr False) [0, - 1, 1, - 2, 2] of
            None \<Rightarrow> g
          | Some offset \<Rightarrow>
              g\<lparr>currentPiece := (currentPiece g)
                \<lparr>rotationIndex := ?n, x := x (currentPiece g) + offset\<rparr>\<rparr>)"
    by blast
  show ?thesis
  proof (cases "find (\<lambda>offset. collides g offset 0 ?n = Inr False) [0, - 1, 1, - 2, 2]")
    case None
    with eq assms show ?thesis
      by (simp add: interval_step_refl)
  next
    case (Some offset)
    then have "collides g offset 0 ?n = Inr False"
      by (rule find_holds)
    then have free: "\<not> hits g offset 0 ?n"
      unfolding collides_hits [OF n cur(4)] by simp
    have "piece_ok ((currentPiece g)\<lparr>rotationIndex := ?n, x := x (currentPiece g) + offset\<rparr>)"
      by (rule piece_ok_placed [OF cur(3) n free]) simp_all
    from stable_piece [OF assms this] eq Some show ?thesis
      by simp
  qed
qed

lemma clearLines_step:
  assumes "length (board g) = ROWS" and "clearLines g = Inr g'"
  shows "interval_step g g'" and "timers_ok g \<Longrightarrow> timers_ok g'"
proof -
  have "interval_step g g' \<and> (timers_ok g \<longrightarrow> timers_ok g')"
  proof (rule clearLines_cases [OF assms(1)])
    fix g2
    assume "clearLines g = Inr g2" and "interval_step g g2"
      and "timers_ok g \<Longrightarrow> timers_ok g2"
    moreover from this(1) assms(2) have "g2 = g'" by simp
    ultimately show ?thesis by simp
  qed
  then show "interval_step g g'" and "timers_ok g \<Longrightarrow> timers_ok g'"
    by simp_all
qed

lemma placePiece_stable:
  assumes "stable g" and "index < length PIECES"
  shows "\<exists>g'. placePiece g index = Inr g' \<and> stable g' \<and> interval_step g g'"
proof (rule placePiece_cases [OF stable_current(1) [OF assms(1)] assms(2)])
  fix b g1 q
  assume b: "board_ok b" and g1: "clearLines (g\<lparr>board := b\<rparr>) = Inr g1"
    and cells: "\<forall>i j. i < ROWS \<longrightarrow> j < COLS \<longrightarrow>
        b ! i ! j =
          (if (\<exists>(r, c) \<in> set (occupied (rotations (currentPiece g) ! rotationIndex (currentPiece g))).
                 int i = y (currentPiece g) + int r \<and> int j = x (currentPiece g) + int c)
           then Some (colour (currentPiece g)) else board g ! i ! j)"
    and pp: "placePiece g index =
           Inr (if hits (g1\<lparr>currentPiece := q\<rparr>) 0 0 0 then endGame (g1\<lparr>currentPiece := q\<rparr>)
                else g1\<lparr>currentPiece := q\<rparr>)"
    and s2: "sound (g1\<lparr>currentPiece := q\<rparr>)"
  have len: "length (board (g\<lparr>board := b\<rparr>)) = ROWS"
    using b by (simp add: board_ok_def)
  have tg: "timers_ok (g\<lparr>board := b\<rparr>)"
    using assms(1) by (auto simp: stable_def timers_ok_def split: option.splits)
  have st: "interval_step (g\<lparr>board := b\<rparr>) g1" and t1: "timers_ok g1"
    using clearLines_step [OF len g1] tg by simp_all
  have step: "interval_step g g1"
    using st by (rule interval_step_frame) simp_all
  let ?g2 = "g1\<lparr>currentPiece := q\<rparr>"
  have t2: "timers_ok ?g2"
    using t1 by (rule timers_ok_frame) simp_all
  have step2: "interval_step g ?g2" "interval_step g (endGame ?g2)"
    using step by (rule interval_step_frame; simp)+
  have io: "interval_ok (dropInterval ?g2)"
    using interval_ok_step(1) [OF _ step2(1)] assms(1) by (simp add: stable_def)
  have td: "tidy g" and bo: "board_ok (board g)" and po: "piece_ok (currentPiece g)"
    using assms(1) by (simp_all add: stable_def sound_def)
  have "length (filter row_full b)
      \<le> length (rotations (currentPiece g) ! rotationIndex (currentPiece g))"
    using td by (intro lock_full_rows [OF bo b _ cells]) (simp add: tidy_def)
  also have "\<dots> \<le> 4"
    using po by (intro catalog_shape(2)) (simp_all add: piece_ok_def)
  finally have "tidy g1"
    using td by (intro clearLines_tidy [OF len g1]) (simp_all add: tidy_def)
  then have td2: "tidy ?g2" "tidy (endGame ?g2)"
    by (simp_all add: tidy_def)
  have "stable ?g2"
    using s2 t2 io td2 by (simp add: stable_def)
  moreover have "stable (endGame ?g2)"
    using s2 endGame_timers(2) [OF t2] io td2 by (simp add: stable_def sound_def)
  ultimately show ?thesis
    using pp step2 by (cases "hits ?g2 0 0 0") simp_all
qed

lemma softDrop_stable:
  assumes "stable g" and "index < length PIECES"
  shows "\<exists>g'. softDrop g index = Inr g' \<and> stable g' \<and> interval_step g g'"
proof (cases "hits g 0 1 (rotationIndex (currentPiece g))")
  case True
  then have "softDrop g index = placePiece g index"
    by (simp add: softDrop_def sound_collides_current [OF stable_current(1) [OF assms(1)]])
  then show ?thesis
    using placePiece_stable [OF assms] by simp
next
  case False
  then have "softDrop g index
      = Inr (g\<lparr>currentPiece := (currentPiece g)\<lparr>y := y (currentPiece g) + 1\<rparr>\<rparr>)"
    by (simp add: softDrop_def sound_collides_current [OF stable_current(1) [OF assms(1)]])
  then show ?thesis
    using fall_stable [OF assms(1) False] by simp
qed

lemma drop_stable:
  assumes "stable g" and "index < length PIECES"
  shows "\<exists>g'. drop_piece g index = Inr g' \<and> stable g' \<and> interval_step g g'"
proof (cases "isGameOver g")
  case True
  then show ?thesis
    using assms(1) by (simp add: drop_piece_def interval_step_refl)
next
  case False
  then have "drop_piece g index = softDrop g index"
    by (simp add: drop_piece_def softDrop_def)
  then show ?thesis
    using softDrop_stable [OF assms] by simp
qed

subsection \<open>The hard-drop loop\<close>

lemma hardDrop_loop_first:
  assumes "\<And>d. collides g 0 d (rotationIndex (currentPiece g)) = Inr (h d)"
    and "h (landing + 1)" and "\<forall>d. dy < d \<and> d \<le> landing \<longrightarrow> \<not> h d" and "dy \<le> landing"
  shows "hardDrop_loop g dy = Some (Inr landing)"
  using assms(3,4)
proof (induction "nat (landing - dy)" arbitrary: dy)
  case 0
  then have "dy = landing" by simp
  then show ?case
    using assms(2) by (subst hardDrop_loop.simps) (simp add: assms(1))
next
  case (Suc k)
  then have "\<not> h (dy + 1)" and "dy + 1 \<le> landing" by auto
  moreover have "hardDrop_loop g (dy + 1) = Some (Inr landing)"
    using Suc by (intro Suc.hyps(1)) auto
  ultimately show ?case
    by (subst hardDrop_loop.simps) (simp add: assms(1))
qed

lemma first_hit:
  fixes h :: "int \<Rightarrow> bool"
  assumes "h limit" and "dy < limit"
  shows "\<exists>landing. dy \<le> landing \<and> landing < limit \<and> h (landing + 1) \<and>
           (\<forall>d. dy < d \<and> d \<le> landing \<longrightarrow> \<not> h d)"
  using assms(2)
proof (induction "nat (limit - dy)" arbitrary: dy)
  case 0
  then show ?case by simp
next
  case (Suc k)
  show ?case
  proof (cases "h (dy + 1)")
    case True
    then show ?thesis
      using Suc.prems by (intro exI [of _ dy]) auto
  next
    case False
    then have "dy + 1 < limit"
      using assms(1) Suc.prems by (cases "dy + 1 = limit") auto
    moreover have "k = nat (limit - (dy + 1))"
      using Suc.hyps(2) by simp
    ultimately obtain landing where l: "dy + 1 \<le> landing" "landing < limit" "h (landing + 1)"
      "\<forall>d. dy + 1 < d \<and> d \<le> landing \<longrightarrow> \<not> h d"
      using Suc.hyps(1) by blast
    have "\<forall>d. dy < d \<and> d \<le> landing \<longrightarrow> \<not> h d"
    proof (intro allI impI)
      fix d assume "dy < d \<and> d \<le> landing"
      then show "\<not> h d"
        using l(4) False by (cases "d = dy + 1") auto
    qed
    then show ?thesis
      using l by (intro exI [of _ landing]) simp
  qed
qed

lemma bottom_hits:
  assumes "piece_ok (currentPiece g)" and "int ROWS - y (currentPiece g) \<le> d"
  shows "hits g 0 d (rotationIndex (currentPiece g))"
proof -
  let ?p = "currentPiece g"
  have "occupied (rotations ?p ! rotationIndex ?p) \<noteq> []"
    using assms(1) by (intro catalog_shape(1)) (simp_all add: piece_ok_def)
  then obtain r c where rc: "(r, c) \<in> set (occupied (rotations ?p ! rotationIndex ?p))"
    by (cases "occupied (rotations ?p ! rotationIndex ?p)") auto
  have "violates (board g) (x ?p + 0 + int c) (y ?p + d + int r)"
    using assms(2) by (simp add: violates_def)
  with rc show ?thesis
    unfolding hits_def by blast
qed

lemma piece_above_bottom:
  assumes "piece_ok (currentPiece g)"
  shows "y (currentPiece g) < int ROWS"
proof -
  let ?p = "currentPiece g"
  have "occupied (rotations ?p ! rotationIndex ?p) \<noteq> []"
    using assms(1) by (intro catalog_shape(1)) (simp_all add: piece_ok_def)
  then obtain r c where rc: "(r, c) \<in> set (occupied (rotations ?p ! rotationIndex ?p))"
    by (cases "occupied (rotations ?p ! rotationIndex ?p)") auto
  then have "y ?p + int r < int ROWS"
    using assms by (auto simp: piece_ok_def in_bounds_def list_all_iff)
  then show ?thesis by simp
qed

lemma hardDrop_loop_lands:
  assumes "sound g"
  obtains landing where "hardDrop_loop g 0 = Some (Inr landing)"
    and "0 \<le> landing" and "landing < int ROWS - y (currentPiece g)"
    and "hits g 0 (landing + 1) (rotationIndex (currentPiece g))"
    and "\<forall>d. 0 < d \<and> d \<le> landing \<longrightarrow> \<not> hits g 0 d (rotationIndex (currentPiece g))"
proof -
  let ?h = "\<lambda>d. hits g 0 d (rotationIndex (currentPiece g))"
  have ok: "piece_ok (currentPiece g)"
    using assms by (simp add: sound_def)
  have top: "?h (int ROWS - y (currentPiece g))"
    using ok by (rule bottom_hits) simp
  have pos: "0 < int ROWS - y (currentPiece g)"
    using piece_above_bottom [OF ok] by simp
  from first_hit [of ?h, OF top pos] obtain landing where
    l: "0 \<le> landing" "landing < int ROWS - y (currentPiece g)" "?h (landing + 1)"
    "\<forall>d. 0 < d \<and> d \<le> landing \<longrightarrow> \<not> ?h d"
    by blast
  have "hardDrop_loop g 0 = Some (Inr landing)"
    using l(3,4,1) by (intro hardDrop_loop_first [where h = ?h]) (rule sound_collides_current [OF assms])
  with l show ?thesis
    using that by blast
qed

lemma hardDrop_stable:
  assumes "stable g" and "index < length PIECES"
  shows "\<exists>g'. hardDrop g index = Some (Inr g') \<and> stable g' \<and> interval_step g g'"
proof (rule hardDrop_loop_lands [OF stable_current(1) [OF assms(1)]])
  fix landing
  assume loop: "hardDrop_loop g 0 = Some (Inr landing)" and pos: "0 \<le> landing"
    and free: "\<forall>d. 0 < d \<and> d \<le> landing \<longrightarrow> \<not> hits g 0 d (rotationIndex (currentPiece g))"
  let ?g = "g\<lparr>currentPiece := (currentPiece g)\<lparr>y := y (currentPiece g) + landing\<rparr>\<rparr>"
  have st: "stable ?g"
  proof (cases "landing = 0")
    case True
    then show ?thesis using assms(1) by simp
  next
    case False
    then have "\<not> hits g 0 landing (rotationIndex (currentPiece g))"
      using pos free by simp
    then show ?thesis by (rule fall_stable(1) [OF assms(1)])
  qed
  from placePiece_stable [OF st assms(2)] obtain g' where
    g': "placePiece ?g index = Inr g'" "stable g'" "interval_step ?g g'"
    by blast
  have "interval_step g g'"
    using g'(3) by (rule interval_step_frame) simp_all
  moreover have "hardDrop g index = Some (Inr g')"
    using loop g'(1) by (simp add: hardDrop_def)
  ultimately show ?thesis
    using g'(2) by blast
qed

lemma empty_board_ok: "board_ok (replicate ROWS (replicate COLS None))"
  by (simp add: board_ok_def list_all_iff)

lemma resetGame_stable:
  assumes "timers_ok g" and "index < length PIECES"
  shows "\<exists>g'. resetGame g index = Inr g' \<and> stable g' \<and> dropInterval g' = 1000 \<and>
           board g' = replicate ROWS (replicate COLS None) \<and> score g' = Num 0 \<and>
           linesCleared g' = 0 \<and> \<not> isGameOver g'"
proof (rule spawn_ok [OF assms(2)])
  fix q
  assume q: "randomPiece index = Inr q" "piece_ok q"
  let ?g1 = "g\<lparr>board := replicate ROWS (replicate COLS None),
               score := Num 0, linesCleared := 0, dropInterval := 1000,
               isGameOver := False, currentPiece := q\<rparr>"
  let ?g2 = "if (case dropTimer ?g1 of None \<Rightarrow> False | Some i \<Rightarrow> i \<noteq> 0)
             then clearInterval (dropTimer ?g1) ?g1 else ?g1"
  have eq: "resetGame g index = Inr (setInterval ?g2)"
    using q(1) by (simp add: resetGame_def Let_def)
  have t: "timers_ok (setInterval ?g2)"
    using assms(1)
    by (auto simp: timers_ok_def setInterval_def clearInterval_def split: option.splits)
  have "sound (setInterval ?g2)"
    using q(2) empty_board_ok by (simp add: sound_def)
  moreover have "tidy (setInterval ?g2)"
    using empty_row_not_full by (simp add: tidy_def filter_empty_conv empty_row_def)
  ultimately have "stable (setInterval ?g2)"
    using t by (simp add: stable_def interval_ok_def)
  then show ?thesis
    unfolding eq by simp
qed

lemma keydown_cases:
  "keydown g code index \<in>
     {Some (Inr g), Some (move g (- 1)), Some (move g 1), Some (rotate_piece g),
      Some (softDrop g index), hardDrop g index}"
  by (simp add: keydown_def)

lemma exec_stable:
  assumes "stable g" and "index < length PIECES"
  shows "\<exists>g'. exec g a index = Some (Inr g') \<and> stable g' \<and> interval_step g g'"
proof (cases a)
  case (KeyDown code)
  have "\<exists>g'. Some (Inr g) = Some (Inr g') \<and> stable g' \<and> interval_step g g'"
    using assms(1) by (simp add: interval_step_refl)
  then show ?thesis
    using keydown_cases [of g code index] move_stable [OF assms(1)] rotate_stable [OF assms(1)]
      softDrop_stable [OF assms] hardDrop_stable [OF assms] KeyDown
    by auto
qed (use assms move_stable rotate_stable softDrop_stable hardDrop_stable drop_stable
      placePiece_stable in simp_all)

lemma reachable_stable: "reachable g \<Longrightarrow> stable g"
proof (induction rule: reachable.induct)
  case (load g index g')
  then have "timers_ok g" by (simp add: timers_ok_def)
  from resetGame_stable [OF this load(4)] load(5) show ?case by simp
next
  case (restart g index g')
  then have "timers_ok g" by (simp add: stable_def)
  from resetGame_stable [OF this restart(2)] restart(3) show ?case by simp
next
  case (step g index a g')
  from exec_stable [OF step(4) step(2), of a] step(3) show ?case by simp
qed

lemma run_reachable:
  assumes "reachable g" and "list_all (\<lambda>(a, index). index < length PIECES) steps"
    and "run g steps = Some (Inr g')"
  shows "reachable g'"
  using assms
proof (induction steps arbitrary: g)
  case Nil
  then show ?case by simp
next
  case (Cons s steps)
  obtain a index where s: "s = (a, index)" by (cases s)
  from Cons.prems(3) obtain g1 where g1: "exec g a index = Some (Inr g1)"
    and rest: "run g1 steps = Some (Inr g')"
    by (auto simp: s split: option.splits sum.splits)
  have "reachable g1"
    using Cons.prems(1,2) g1 s by (intro reachable.step [of g index a g1]) simp_all
  then show ?case
    using Cons.IH rest Cons.prems(2) by simp
qed

lemma scenario_reachable: "reachable scenario"
proof (rule reachable.load [of "scenario\<lparr>dropTimer := None, timers := [], nextTimerId := 1\<rparr>" 3])
  show "resetGame (scenario\<lparr>dropTimer := None, timers := [], nextTimerId := 1\<rparr>) 3 = Inr scenario"
    by code_simp
qed (simp_all add: PIECES_def)

section \<open>The active piece stays inside the board\<close>

text \<open>
  C2. In every state reachable from a page load by restarts and by any sequence
  of move, rotate, soft-drop, hard-drop, tick and lock operations, every occupied
  cell of the active piece lies in a column from 0 to COLS - 1 and in a row above
  ROWS (the row may be negative). The proof is by induction over the reachable
  states: \<open>randomPiece\<close> establishes the bounds, and every change of position
  or rotation happens only after \<open>collides\<close> has reported no collision there.
\<close>

theorem active_piece_in_bounds:
  assumes "reachable g"
    and "r < length (rotations (currentPiece g) ! rotationIndex (currentPiece g))"
    and "c < length (rotations (currentPiece g) ! rotationIndex (currentPiece g) ! r)"
    and "rotations (currentPiece g) ! rotationIndex (currentPiece g) ! r ! c \<noteq> 0"
  shows "0 \<le> x (currentPiece g) + int c \<and> x (currentPiece g) + int c < int COLS \<and>
         y (currentPiece g) + int r < int ROWS"
proof -
  have "in_bounds (currentPiece g)"
    using reachable_stable [OF assms(1)] by (simp add: stable_def sound_def piece_ok_def)
  moreover have "(r, c) \<in> set (occupied (rotations (currentPiece g) ! rotationIndex (currentPiece g)))"
    using assms(2-4) by (simp add: occupied_iff)
  ultimately show ?thesis
    by (auto simp: in_bounds_def list_all_iff)
qed

theorem active_piece_in_bounds_witness:
  "\<exists>g. run scenario (replicate 5 (Move (- 1), 0)) = Some (Inr g) \<and> reachable g \<and>
     x (currentPiece g) = 0 \<and>
     0 < length (rotations (currentPiece g) ! rotationIndex (currentPiece g)) \<and>
     0 < length (rotations (currentPiece g) ! rotationIndex (currentPiece g) ! 0) \<and>
     rotations (currentPiece g) ! rotationIndex (currentPiece g) ! 0 ! 0 \<noteq> 0 \<and>
     0 \<le> x (currentPiece g) + int 0 \<and> x (currentPiece g) + int 0 < int COLS \<and>
     y (currentPiece g) + int 0 < int ROWS"
proof -
  let ?g = "scenario\<lparr>currentPiece := (currentPiece scenario)\<lparr>x := 0\<rparr>\<rparr>"
  have r: "run scenario (replicate 5 (Move (- 1), 0)) = Some (Inr ?g)"
    by code_simp
  have re: "reachable ?g"
    by (rule run_reachable [OF scenario_reachable _ r]) (simp add: PIECES_def list_all_iff)
  have h: "0 < length (rotations (currentPiece ?g) ! rotationIndex (currentPiece ?g))"
    "0 < length (rotations (currentPiece ?g) ! rotationIndex (currentPiece ?g) ! 0)"
    "rotations (currentPiece ?g) ! rotationIndex (currentPiece ?g) ! 0 ! 0 \<noteq> 0"
    "x (currentPiece ?g) = 0"
    by (simp_all add: scenario_def)
  from active_piece_in_bounds [OF re h(1-3)] r re h show ?thesis
    by blast
qed

section \<open>The drop interval\<close>

lemma returned:
  "(case v of Some (Inr a) \<Rightarrow> P a | _ \<Rightarrow> False) \<Longrightarrow> \<exists>a. v = Some (Inr a) \<and> P a"
  by (auto split: option.splits sum.splits)

text \<open>
  C6. Within a session the drop interval never increases. In every reachable
  state it is one of 1000, 900, ..., 200, a new session starts at 1000, and an
  operation changes it only by lowering it by exactly 100 from a value above
  200, in a step in which the lines-cleared counter grows (a line clear) to a
  multiple of 10.
\<close>

theorem dropInterval_monotone:
  assumes "reachable g" and "index < length PIECES" and "exec g a index = Some (Inr g')"
  shows "dropInterval g' \<le> dropInterval g \<and>
     dropInterval g \<in> set [1000, 900, 800, 700, 600, 500, 400, 300, 200] \<and>
     dropInterval g' \<in> set [1000, 900, 800, 700, 600, 500, 400, 300, 200] \<and>
     (dropInterval g' \<noteq> dropInterval g \<longrightarrow>
        dropInterval g' = dropInterval g - 100 \<and> 200 < dropInterval g \<and>
        linesCleared g' mod 10 = 0 \<and> linesCleared g < linesCleared g') \<and>
     (\<forall>g0 g1. resetGame g0 index = Inr g1 \<longrightarrow> dropInterval g1 = 1000)"
proof -
  have st: "stable g"
    using assms(1) by (rule reachable_stable)
  from exec_stable [OF st assms(2), of a] assms(3)
  have step: "interval_step g g'"
    by simp
  have io: "interval_ok (dropInterval g)"
    using st by (simp add: stable_def)
  note io' = interval_ok_step [OF io step]
  have reset: "\<forall>g0 g1. resetGame g0 index = Inr g1 \<longrightarrow> dropInterval g1 = 1000"
    by (auto simp: resetGame_def Let_def split: sum.splits)
  show ?thesis
    using io io' step reset unfolding interval_ok_def interval_step_def by blast
qed

lemma ten_lines_closed:
  "(case run scenario ten_lines of
      Some (Inr g) \<Rightarrow>
        (case exec g HardDrop 3 of
           Some (Inr g') \<Rightarrow>
             dropInterval g = 1000 \<and> dropInterval g' = 900 \<and>
             linesCleared g = 9 \<and> linesCleared g' = 10
         | _ \<Rightarrow> False)
    | _ \<Rightarrow> False)"
  by code_simp

theorem dropInterval_monotone_witness:
  "\<exists>g g'. run scenario ten_lines = Some (Inr g) \<and> reachable g \<and>
     exec g HardDrop 3 = Some (Inr g') \<and>
     linesCleared g = 9 \<and> linesCleared g' = 10 \<and>
     dropInterval g = 1000 \<and> dropInterval g' = 900 \<and>
     dropInterval g' \<le> dropInterval g"
proof -
  from returned [OF ten_lines_closed] obtain g where
    r: "run scenario ten_lines = Some (Inr g)"
    and c: "case exec g HardDrop 3 of
           Some (Inr g') \<Rightarrow>
             dropInterval g = 1000 \<and> dropInterval g' = 900 \<and>
             linesCleared g = 9 \<and> linesCleared g' = 10
         | _ \<Rightarrow> False"
    by blast
  from returned [OF c] obtain g' where e: "exec g HardDrop 3 = Some (Inr g')"
    and v: "dropInterval g = 1000" "dropInterval g' = 900" "linesCleared g = 9"
      "linesCleared g' = 10"
    by blast
  have re: "reachable g"
    by (rule run_reachable [OF scenario_reachable _ r])
      (simp add: ten_lines_def batch_def PIECES_def list_all_iff)
  have i: "(3::nat) < length PIECES"
    by (simp add: PIECES_def)
  from dropInterval_monotone [OF re i e] r re e v show ?thesis
    by blast
qed

section \<open>Hard drop\<close>

lemma scenario_hardDrop_closed:
  "list_all (\<lambda>index. case hardDrop scenario index of
       Some (Inr g') \<Rightarrow>
         board g' = replicate 18 (replicate 10 None)
           @ replicate 2 (replicate 4 None @ replicate 2 (Some ''#e9c46a'') @ replicate 4 None) \<and>
         score g' = Num 0 \<and> linesCleared g' = 0
     | _ \<Rightarrow> False) [0..<length PIECES]"
  by code_simp

lemma scenario_loop: "hardDrop_loop scenario 0 = Some (Inr 19)"
  by code_simp

text \<open>
  C7. In a reachable state the loop of \<open>hardDrop\<close> ends with the maximal
  \<open>dy \<ge> 0\<close> such that \<open>collides(0, d)\<close> is false for every \<open>d\<close> from 1 to
  \<open>dy\<close>: \<open>collides(0, dy + 1)\<close> is true and, when the start position does not
  collide, \<open>collides(0, dy)\<close> is false; the piece is moved down by \<open>dy\<close> and
  locked. In the scenario (empty 20 x 10 board, O piece at x = 4, y = -1) the
  piece locks into rows 18 and 19, columns 4 and 5, and score and lines cleared
  stay 0, whatever piece spawns next.
\<close>

theorem hardDrop_maximal_descent:
  assumes "reachable g" and "index < length PIECES"
  shows "(\<exists>dy. 0 \<le> dy \<and> hardDrop_loop g 0 = Some (Inr dy) \<and>
       (\<forall>d. 1 \<le> d \<and> d \<le> dy \<longrightarrow>
            collides g 0 d (rotationIndex (currentPiece g)) = Inr False) \<and>
       collides g 0 (dy + 1) (rotationIndex (currentPiece g)) = Inr True \<and>
       (collides g 0 0 (rotationIndex (currentPiece g)) = Inr False \<longrightarrow>
          collides g 0 dy (rotationIndex (currentPiece g)) = Inr False) \<and>
       hardDrop g index =
         Some (placePiece (g\<lparr>currentPiece := (currentPiece g)\<lparr>y := y (currentPiece g) + dy\<rparr>\<rparr>)
                 index)) \<and>
     (\<exists>g'. hardDrop scenario index = Some (Inr g') \<and>
        board g' = replicate 18 (replicate 10 None)
          @ replicate 2 (replicate 4 None @ replicate 2 (Some ''#e9c46a'') @ replicate 4 None) \<and>
        score g' = Num 0 \<and> linesCleared g' = 0)"
proof (rule conjI)
  have so: "sound g"
    using reachable_stable [OF assms(1)] by (simp add: stable_def)
  note col = sound_collides_current [OF so]
  show "\<exists>dy. 0 \<le> dy \<and> hardDrop_loop g 0 = Some (Inr dy) \<and>
       (\<forall>d. 1 \<le> d \<and> d \<le> dy \<longrightarrow>
            collides g 0 d (rotationIndex (currentPiece g)) = Inr False) \<and>
       collides g 0 (dy + 1) (rotationIndex (currentPiece g)) = Inr True \<and>
       (collides g 0 0 (rotationIndex (currentPiece g)) = Inr False \<longrightarrow>
          collides g 0 dy (rotationIndex (currentPiece g)) = Inr False) \<and>
       hardDrop g index =
         Some (placePiece (g\<lparr>currentPiece := (currentPiece g)\<lparr>y := y (currentPiece g) + dy\<rparr>\<rparr>)
                 index)"
  proof (rule hardDrop_loop_lands [OF so])
    fix landing
    assume loop: "hardDrop_loop g 0 = Some (Inr landing)" and pos: "0 \<le> landing"
      and hit: "hits g 0 (landing + 1) (rotationIndex (currentPiece g))"
      and free: "\<forall>d. 0 < d \<and> d \<le> landing \<longrightarrow> \<not> hits g 0 d (rotationIndex (currentPiece g))"
    have "\<forall>d. 1 \<le> d \<and> d \<le> landing \<longrightarrow>
            collides g 0 d (rotationIndex (currentPiece g)) = Inr False"
      using free by (simp add: col)
    moreover have "collides g 0 (landing + 1) (rotationIndex (currentPiece g)) = Inr True"
      using hit by (simp add: col)
    moreover have "collides g 0 0 (rotationIndex (currentPiece g)) = Inr False \<longrightarrow>
          collides g 0 landing (rotationIndex (currentPiece g)) = Inr False"
      using free pos by (cases "landing = 0") (simp_all add: col)
    moreover have "hardDrop g index =
         Some (placePiece (g\<lparr>currentPiece := (currentPiece g)\<lparr>y := y (currentPiece g) + landing\<rparr>\<rparr>)
                 index)"
      using loop by (simp add: hardDrop_def)
    ultimately show ?thesis
      using loop pos by blast
  qed
next
  have "case hardDrop scenario index of
       Some (Inr g') \<Rightarrow>
         board g' = replicate 18 (replicate 10 None)
           @ replicate 2 (replicate 4 None @ replicate 2 (Some ''#e9c46a'') @ replicate 4 None) \<and>
         score g' = Num 0 \<and> linesCleared g' = 0
     | _ \<Rightarrow> False"
    using scenario_hardDrop_closed assms(2) by (simp add: list_all_iff)
  then show "\<exists>g'. hardDrop scenario index = Some (Inr g') \<and>
        board g' = replicate 18 (replicate 10 None)
          @ replicate 2 (replicate 4 None @ replicate 2 (Some ''#e9c46a'') @ replicate 4 None) \<and>
        score g' = Num 0 \<and> linesCleared g' = 0"
    by (rule returned)
qed

theorem hardDrop_maximal_descent_witness:
  "reachable scenario \<and> (3::nat) < length PIECES \<and>
   hardDrop_loop scenario 0 = Some (Inr 19) \<and>
   collides scenario 0 19 (rotationIndex (currentPiece scenario)) = Inr False \<and>
   collides scenario 0 (19 + 1) (rotationIndex (currentPiece scenario)) = Inr True \<and>
   hardDrop scenario 3 =
     Some (placePiece (scenario\<lparr>currentPiece :=
             (currentPiece scenario)\<lparr>y := y (currentPiece scenario) + 19\<rparr>\<rparr>) 3) \<and>
   (\<exists>g'. hardDrop scenario 3 = Some (Inr g') \<and>
      board g' = replicate 18 (replicate 10 None)
        @ replicate 2 (replicate 4 None @ replicate 2 (Some ''#e9c46a'') @ replicate 4 None) \<and>
      score g' = Num 0 \<and> linesCleared g' = 0)"
proof -
  have i: "(3::nat) < length PIECES"
    by (simp add: PIECES_def)
  from hardDrop_maximal_descent [OF scenario_reachable i] obtain dy where
    dy: "hardDrop_loop scenario 0 = Some (Inr dy)"
    "\<forall>d. 1 \<le> d \<and> d \<le> dy \<longrightarrow>
       collides scenario 0 d (rotationIndex (currentPiece scenario)) = Inr False"
    "collides scenario 0 (dy + 1) (rotationIndex (currentPiece scenario)) = Inr True"
    "hardDrop scenario 3 =
       Some (placePiece (scenario\<lparr>currentPiece :=
               (currentPiece scenario)\<lparr>y := y (currentPiece scenario) + dy\<rparr>\<rparr>) 3)"
    and land: "\<exists>g'. hardDrop scenario 3 = Some (Inr g') \<and>
      board g' = replicate 18 (replicate 10 None)
        @ replicate 2 (replicate 4 None @ replicate 2 (Some ''#e9c46a'') @ replicate 4 None) \<and>
      score g' = Num 0 \<and> linesCleared g' = 0"
    by blast
  have "dy = 19"
    using dy(1) scenario_loop by simp
  with dy land scenario_reachable i show ?thesis
    by simp
qed

text \<open>
  C10. The loop of \<open>hardDrop\<close> always ends: every rotation state of every
  catalog variant has an occupied cell, \<open>collides\<close> reports a collision once
  such a cell would be at or below row ROWS, and so in every reachable state the
  loop returns a \<open>dy\<close> between 0 and ROWS minus the piece's \<open>y\<close> with
  \<open>collides(0, dy + 1)\<close> true.
\<close>

theorem hardDrop_terminates:
  assumes "reachable g"
  shows "list_all (\<lambda>d. list_all (\<lambda>s. occupied s \<noteq> []) (rotations d)) PIECES \<and>
     (\<exists>dy. hardDrop_loop g 0 = Some (Inr dy) \<and> 0 \<le> dy \<and>
        dy \<le> int ROWS - y (currentPiece g) \<and>
        collides g 0 (dy + 1) (rotationIndex (currentPiece g)) = Inr True)"
proof (rule conjI)
  show "list_all (\<lambda>d. list_all (\<lambda>s. occupied s \<noteq> []) (rotations d)) PIECES"
    using catalog_closed by (simp add: list_all_iff)
next
  have so: "sound g"
    using reachable_stable [OF assms(1)] by (simp add: stable_def)
  show "\<exists>dy. hardDrop_loop g 0 = Some (Inr dy) \<and> 0 \<le> dy \<and>
        dy \<le> int ROWS - y (currentPiece g) \<and>
        collides g 0 (dy + 1) (rotationIndex (currentPiece g)) = Inr True"
  proof (rule hardDrop_loop_lands [OF so])
    fix landing
    assume "hardDrop_loop g 0 = Some (Inr landing)" and "0 \<le> landing"
      and "landing < int ROWS - y (currentPiece g)"
      and "hits g 0 (landing + 1) (rotationIndex (currentPiece g))"
    then show ?thesis
      by (intro exI [of _ landing]) (simp add: sound_collides_current [OF so])
  qed
qed

theorem hardDrop_terminates_witness:
  "reachable scenario \<and>
   (\<exists>dy. hardDrop_loop scenario 0 = Some (Inr dy) \<and> dy = 19 \<and>
      dy \<le> int ROWS - y (currentPiece scenario) \<and>
      collides scenario 0 (dy + 1) (rotationIndex (currentPiece scenario)) = Inr True)"
proof -
  from hardDrop_terminates [OF scenario_reachable] obtain dy where
    dy: "hardDrop_loop scenario 0 = Some (Inr dy)" "dy \<le> int ROWS - y (currentPiece scenario)"
    "collides scenario 0 (dy + 1) (rotationIndex (currentPiece scenario)) = Inr True"
    by blast
  have "dy = 19"
    using dy(1) scenario_loop by simp
  with dy scenario_reachable show ?thesis
    by simp
qed

section \<open>Lock and game over\<close>

lemma lock_timers_ok:
  assumes "stable g" and "board_ok b" and "clearLines (g\<lparr>board := b\<rparr>) = Inr g1"
  shows "timers_ok (g1\<lparr>currentPiece := q\<rparr>)" and "isGameOver g1 = isGameOver g"
proof -
  have len: "length (board (g\<lparr>board := b\<rparr>)) = ROWS"
    using assms(2) by (simp add: board_ok_def)
  have "timers_ok (g\<lparr>board := b\<rparr>)"
    using assms(1) by (auto simp: stable_def timers_ok_def split: option.splits)
  then have "timers_ok g1"
    using clearLines_step(2) [OF len assms(3)] by simp
  then show "timers_ok (g1\<lparr>currentPiece := q\<rparr>)"
    by (rule timers_ok_frame) simp_all
  have "isGameOver g1 = isGameOver (g\<lparr>board := b\<rparr>)"
  proof (rule clearLines_cases [OF len])
    fix g2
    assume "clearLines (g\<lparr>board := b\<rparr>) = Inr g2"
      and "isGameOver g2 = isGameOver (g\<lparr>board := b\<rparr>)"
    then show ?thesis
      using assms(3) by simp
  qed
  then show "isGameOver g1 = isGameOver g"
    by simp
qed

text \<open>
  C8. In a reachable state \<open>placePiece\<close> returns: it writes the colour of the
  piece into the board cells the piece occupies in rows \<open>\<ge> 0\<close> (and changes no
  other cell), runs \<open>clearLines\<close>, and spawns a new piece. The game-over flag is
  set exactly when it was set before or the new piece collides at its spawn
  position and rotation. In that case the tick timer is cancelled (no timer is
  left running), and board, score and lines cleared are those that
  \<open>clearLines\<close> left; without a collision the state is that of \<open>clearLines\<close>
  with the new piece.
\<close>

theorem placePiece_game_over:
  assumes "reachable g" and "index < length PIECES"
  shows "\<exists>b g1 q g'.
     write_cells (board g) (x (currentPiece g)) (y (currentPiece g)) (colour (currentPiece g))
       (occupied (rotations (currentPiece g) ! rotationIndex (currentPiece g))) = Inr b \<and>
     (\<forall>i j. i < ROWS \<longrightarrow> j < COLS \<longrightarrow>
        b ! i ! j =
          (if (\<exists>(r, c) \<in> set (occupied (rotations (currentPiece g) ! rotationIndex (currentPiece g))).
                 int i = y (currentPiece g) + int r \<and> int j = x (currentPiece g) + int c)
           then Some (colour (currentPiece g)) else board g ! i ! j)) \<and>
     clearLines (g\<lparr>board := b\<rparr>) = Inr g1 \<and>
     randomPiece index = Inr q \<and>
     placePiece g index = Inr g' \<and>
     currentPiece g' = q \<and> board g' = board g1 \<and> score g' = score g1 \<and>
     linesCleared g' = linesCleared g1 \<and>
     (isGameOver g' \<longleftrightarrow>
        isGameOver g \<or> collides (g1\<lparr>currentPiece := q\<rparr>) 0 0 (rotationIndex q) = Inr True) \<and>
     (collides (g1\<lparr>currentPiece := q\<rparr>) 0 0 (rotationIndex q) = Inr True \<longrightarrow>
        timers g' = []) \<and>
     (collides (g1\<lparr>currentPiece := q\<rparr>) 0 0 (rotationIndex q) = Inr False \<longrightarrow>
        g' = g1\<lparr>currentPiece := q\<rparr>)"
proof -
  have st: "stable g"
    using assms(1) by (rule reachable_stable)
  show ?thesis
  proof (rule placePiece_cases [OF stable_current(1) [OF st] assms(2)])
    fix b g1 q
    assume w: "write_cells (board g) (x (currentPiece g)) (y (currentPiece g))
          (colour (currentPiece g))
          (occupied (rotations (currentPiece g) ! rotationIndex (currentPiece g))) = Inr b"
      and bo: "board_ok b"
      and cells: "\<forall>i j. i < ROWS \<longrightarrow> j < COLS \<longrightarrow>
        b ! i ! j =
          (if (\<exists>(r, c) \<in> set (occupied (rotations (currentPiece g) ! rotationIndex (currentPiece g))).
                 int i = y (currentPiece g) + int r \<and> int j = x (currentPiece g) + int c)
           then Some (colour (currentPiece g)) else board g ! i ! j)"
      and cl: "clearLines (g\<lparr>board := b\<rparr>) = Inr g1"
      and q: "randomPiece index = Inr q"
      and col: "collides (g1\<lparr>currentPiece := q\<rparr>) 0 0 (rotationIndex q) = Inr (hits (g1\<lparr>currentPiece := q\<rparr>) 0 0 0)"
      and pp: "placePiece g index = Inr (if hits (g1\<lparr>currentPiece := q\<rparr>) 0 0 0 then endGame (g1\<lparr>currentPiece := q\<rparr>) else (g1\<lparr>currentPiece := q\<rparr>))"
    let ?g2 = "g1\<lparr>currentPiece := q\<rparr>"
    note t = lock_timers_ok(1) [OF st bo cl, of q] lock_timers_ok(2) [OF st bo cl]
    let ?g' = "if hits ?g2 0 0 0 then endGame ?g2 else ?g2"
    have "currentPiece ?g' = q \<and> board ?g' = board g1 \<and> score ?g' = score g1 \<and>
       linesCleared ?g' = linesCleared g1 \<and>
       (isGameOver ?g' \<longleftrightarrow> isGameOver g \<or> collides ?g2 0 0 (rotationIndex q) = Inr True) \<and>
       (collides ?g2 0 0 (rotationIndex q) = Inr True \<longrightarrow> timers ?g' = []) \<and>
       (collides ?g2 0 0 (rotationIndex q) = Inr False \<longrightarrow> ?g' = ?g2)"
      using t(2) endGame_timers(1) [OF t(1)] by (simp add: col)
    with w cells cl q pp show ?thesis
      by blast
  qed
qed

lemma scenario_lock_closed:
  "case placePiece scenario 3 of
     Inl e \<Rightarrow> False
   | Inr g' \<Rightarrow>
       isGameOver g' \<and> timers g' = [] \<and> score g' = Num 0 \<and> linesCleared g' = 0 \<and>
       currentPiece g' = currentPiece scenario \<and>
       board g' = (replicate 4 None @ replicate 2 (Some ''#e9c46a'') @ replicate 4 None)
                    # replicate 19 (replicate 10 None)"
  by code_simp

theorem placePiece_game_over_witness:
  "reachable scenario \<and> (3::nat) < length PIECES \<and> \<not> isGameOver scenario \<and>
   (\<exists>g'. placePiece scenario 3 = Inr g' \<and> isGameOver g' \<and> timers g' = [] \<and>
      score g' = Num 0 \<and> linesCleared g' = 0 \<and>
      board g' = (replicate 4 None @ replicate 2 (Some ''#e9c46a'') @ replicate 4 None)
                   # replicate 19 (replicate 10 None))"
proof -
  have i: "(3::nat) < length PIECES"
    by (simp add: PIECES_def)
  from placePiece_game_over [OF scenario_reachable i] obtain g' where
    g': "placePiece scenario 3 = Inr g'"
    by blast
  then show ?thesis
    using scenario_lock_closed scenario_reachable i by (simp add: scenario_def)
qed

section \<open>Scores stay numbers\<close>

text \<open>
  The score table is never read past its end: in a reachable state the board
  has no full row, a lock completes at most four rows, and so the score stays
  a number.
\<close>

lemma reachable_tidy:
  assumes "reachable g"
  shows "filter row_full (board g) = []" and "score g \<noteq> NaN"
  using reachable_stable [OF assms] by (simp_all add: stable_def tidy_def)

lemma reachable_lock_rows:
  assumes "reachable g"
    and "write_cells (board g) (x (currentPiece g)) (y (currentPiece g)) (colour (currentPiece g))
           (occupied (rotations (currentPiece g) ! rotationIndex (currentPiece g))) = Inr b"
  shows "length (filter row_full b) \<le> 4"
proof -
  have st: "stable g"
    using assms(1) by (rule reachable_stable)
  have bo: "board_ok (board g)" and po: "piece_ok (currentPiece g)"
    using st by (simp_all add: stable_def sound_def)
  from write_cells_board [OF bo, of "x (currentPiece g)" "y (currentPiece g)"
      "occupied (rotations (currentPiece g) ! rotationIndex (currentPiece g))"
      "colour (currentPiece g)"] po assms(2)
  have ok: "board_ok b" and cells: "\<forall>i j. i < ROWS \<longrightarrow> j < COLS \<longrightarrow>
        b ! i ! j =
          (if (\<exists>(r, c) \<in> set (occupied (rotations (currentPiece g) ! rotationIndex (currentPiece g))).
                 int i = y (currentPiece g) + int r \<and> int j = x (currentPiece g) + int c)
           then Some (colour (currentPiece g)) else board g ! i ! j)"
    by (simp_all add: piece_ok_def in_bounds_def)
  have "length (filter row_full b)
      \<le> length (rotations (currentPiece g) ! rotationIndex (currentPiece g))"
    by (rule lock_full_rows [OF bo ok reachable_tidy(1) [OF assms(1)] cells])
  also have "\<dots> \<le> 4"
    using po by (intro catalog_shape(2)) (simp_all add: piece_ok_def)
  finally show ?thesis .
qed

end
